theory Spec2Isabelle
  imports Main
begin

section \<open>Federal Register Policy Explorer: the data pipeline of SnapPolicyTimeline\<close>

text \<open>
  The development embeds the non-rendering part of the component: the utilities
  (\<open>normRange\<close>, \<open>normalizeDocType\<close>, \<open>seq\<close>), the program catalog with
  \<open>getProgram\<close> and \<open>getStructure\<close>, the structural match \<open>matchesStructure\<close>, the
  fetchers \<open>fetchFR\<close> and \<open>fetchFRSpan\<close>, the \<open>load\<close> operation, the \<open>series\<close> and
  bucket derivations and the click handler of the chart overlay.

  Conventions of the embedding.
  \<^item> A JavaScript string is a \<open>string\<close>; a field that may be \<open>undefined\<close> is an option.
  \<^item> A \<open>Date\<close> is its time value, an \<open>int\<close> of milliseconds since the epoch; the local
    time zone is taken to be a fixed zero offset, so local calendar fields are the UTC ones.
  \<^item> A calendar date string \<open>YYYY-MM-DD\<close> (what \<open>fmtDate\<close> prints, what the registry
    stores as \<open>publication_date\<close>) is represented by its day number, the number of days
    since 1970-01-01.
  \<^item> A fetch that may fail returns an error or its documents; a test that may throw a
    \<open>TypeError\<close> returns an option, \<open>None\<close> standing for the throw.
\<close>

subsection \<open>Strings\<close>

text \<open>
  \<open>String.prototype.toUpperCase\<close> and \<open>toLowerCase\<close> on the ASCII letters; other
  characters are kept.
\<close>

definition upper_char :: "char \<Rightarrow> char" where
  "upper_char c =
     (case map_of (zip ''abcdefghijklmnopqrstuvwxyz'' ''ABCDEFGHIJKLMNOPQRSTUVWXYZ'') c of
        None \<Rightarrow> c
      | Some u \<Rightarrow> u)"

definition lower_char :: "char \<Rightarrow> char" where
  "lower_char c =
     (case map_of (zip ''ABCDEFGHIJKLMNOPQRSTUVWXYZ'' ''abcdefghijklmnopqrstuvwxyz'') c of
        None \<Rightarrow> c
      | Some l \<Rightarrow> l)"

definition toUpperCase :: "string \<Rightarrow> string" where
  "toUpperCase s = map upper_char s"

fun startsWith :: "string \<Rightarrow> string \<Rightarrow> bool" where
  "startsWith s [] = True"
| "startsWith [] (p # ps) = False"
| "startsWith (c # cs) (p # ps) = (c = p \<and> startsWith cs ps)"

text \<open>\<open>String.prototype.includes\<close>: the pattern occurs as a contiguous substring.\<close>

fun str_includes :: "string \<Rightarrow> string \<Rightarrow> bool" where
  "str_includes [] p = (p = [])"
| "str_includes (c # cs) p = (startsWith (c # cs) p \<or> str_includes cs p)"

text \<open>\<open>String(v)\<close> and template interpolation of a possibly undefined string.\<close>

definition js_str :: "string option \<Rightarrow> string" where
  "js_str v = (case v of None \<Rightarrow> ''undefined'' | Some s \<Rightarrow> s)"

text \<open>Truthiness of a possibly undefined string: undefined and the empty string are falsy.\<close>

definition truthy :: "string option \<Rightarrow> bool" where
  "truthy v = (case v of None \<Rightarrow> False | Some s \<Rightarrow> s \<noteq> [])"

subsection \<open>Document types\<close>

datatype kind = PRORULE | RULE | NOTICE | PRESDOCU

text \<open>\<open>normalizeDocType\<close>: \<open>String(t ?? "").toUpperCase()\<close>, then the first matching test.\<close>

definition normalizeDocType :: "string option \<Rightarrow> kind option" where
  "normalizeDocType t =
     (let s = toUpperCase (case t of None \<Rightarrow> [] | Some x \<Rightarrow> x) in
      if str_includes s ''PRORULE'' \<or> str_includes s ''PROPOSED'' then Some PRORULE
      else if str_includes s ''RULE'' then Some RULE
      else if str_includes s ''NOTICE'' then Some NOTICE
      else if str_includes s ''PRESDOCU'' \<or> str_includes s ''PRESIDENT'' then Some PRESDOCU
      else None)"

subsection \<open>Documents\<close>

text \<open>
  A structural (CFR) reference. The fields hold \<open>Number(r.title)\<close> and \<open>Number(r.part)\<close>
  as an \<open>int option\<close>: \<open>None\<close> is \<open>NaN\<close>, the value of a missing or non-numeric field; a
  field that is \<open>null\<close> or the empty string has the number 0.
\<close>

record cfr_ref =
  ref_title :: "int option"
  ref_part :: "int option"

record agency =
  slug :: "string option"
  name :: "string option"

text \<open>
  A record of the registry as it arrives. \<open>cfr_references\<close> and \<open>agencies\<close> are \<open>None\<close>
  when the field is not an array. An entry of \<open>cfr_references\<close> is \<open>None\<close> when the array
  holds \<open>null\<close> (or \<open>undefined\<close>) at that place, where reading \<open>r.title\<close> throws; any
  other entry is a reference. \<open>publication_date\<close> is the day number of the date string,
  \<open>None\<close> when the field is absent.
\<close>

record rawdoc =
  doc_type :: "string option"
  doc_title :: "string option"
  document_number :: "string option"
  publication_date :: "int option"
  cfr_references :: "cfr_ref option list option"
  agencies :: "agency list option"

text \<open>The ingested document \<open>{ ...d, _pub }\<close>: the record with its parsed publication date.\<close>

record doc = rawdoc +
  pub :: "int option"

text \<open>The deduplication key \<open>String(d.document_number || `${d.type}|${d.title}`)\<close>.\<close>

definition docKey :: "'a rawdoc_scheme \<Rightarrow> string" where
  "docKey d =
     (if truthy (document_number d) then js_str (document_number d)
      else js_str (doc_type d) @ ''|'' @ js_str (doc_title d))"

text \<open>
  The identity of a document in the words of the data model: the document number if
  present, else the composite of type and title.
\<close>

datatype identity = ByNumber string | ByTypeTitle "string option" "string option"

definition identity_of :: "'a rawdoc_scheme \<Rightarrow> identity" where
  "identity_of d =
     (if truthy (document_number d) then ByNumber (js_str (document_number d))
      else ByTypeTitle (doc_type d) (doc_title d))"

subsection \<open>Program / Structure / Parts\<close>

text \<open>\<open>seq(a, b)\<close>: the integers from \<open>a\<close> to \<open>b\<close>, empty when \<open>b < a\<close>.\<close>

definition seq :: "int \<Rightarrow> int \<Rightarrow> int list" where
  "seq a b = map (\<lambda>i. a + int i) [0 ..< nat (max 0 (b - a + 1))]"

text \<open>The catalog entries; the display labels play no part in the pipeline and are left out.\<close>

record "structure" =
  struct_id :: string
  struct_title :: int
  parts :: "int list"

record program =
  prog_id :: string
  structures :: "structure list"

definition PROGRAMS :: "program list" where
  "PROGRAMS =
   [\<lparr>prog_id = ''SNAP'', structures =
       [\<lparr>struct_id = ''SNAP-7C'', struct_title = 7, parts = seq 271 285 @ [292]\<rparr>]\<rparr>,
    \<lparr>prog_id = ''MEDICAID'', structures =
       [\<lparr>struct_id = ''MEDICAID-42C'', struct_title = 42, parts = seq 430 456\<rparr>,
        \<lparr>struct_id = ''MEDICAID-42-CHIP'', struct_title = 42, parts = [457]\<rparr>]\<rparr>,
    \<lparr>prog_id = ''MEDICARE'', structures =
       [\<lparr>struct_id = ''MEDICARE-42B'', struct_title = 42, parts = seq 405 429\<rparr>,
        \<lparr>struct_id = ''MEDICARE-42G'', struct_title = 42, parts = seq 482 498\<rparr>]\<rparr>,
    \<lparr>prog_id = ''ACA'', structures =
       [\<lparr>struct_id = ''ACA-45B'', struct_title = 45,
         parts = [144,146,147,148,150,153,154,155,156,157,158]\<rparr>,
        \<lparr>struct_id = ''ACA-45A-1557'', struct_title = 45, parts = [92]\<rparr>,
        \<lparr>struct_id = ''ACA-29-2590'', struct_title = 29, parts = [2590]\<rparr>,
        \<lparr>struct_id = ''ACA-26-54'', struct_title = 26, parts = [54]\<rparr>]\<rparr>,
    \<lparr>prog_id = ''UI'', structures =
       [\<lparr>struct_id = ''UI-20V'', struct_title = 20,
         parts = [601,602,603,604,606,609,614,615,616,617,618,619,620,625,640,650]\<rparr>]\<rparr>,
    \<lparr>prog_id = ''FMLA'', structures =
       [\<lparr>struct_id = ''FMLA-29-825'', struct_title = 29, parts = [825]\<rparr>]\<rparr>]"

text \<open>
  \<open>Array.prototype.find\<close> is \<open>List.find\<close>; \<open>xs[0]\<close> is \<open>undefined\<close> on an empty array,
  which the option type records. An absent identifier is \<open>None\<close> and equals no entry's id.
\<close>

definition first_elem :: "'a list \<Rightarrow> 'a option" where
  "first_elem xs = (case xs of [] \<Rightarrow> None | x # _ \<Rightarrow> Some x)"

definition find_or_first :: "('a \<Rightarrow> bool) \<Rightarrow> 'a list \<Rightarrow> 'a option" where
  "find_or_first P xs = (case List.find P xs of Some x \<Rightarrow> Some x | None \<Rightarrow> first_elem xs)"

definition getProgramIn :: "program list \<Rightarrow> string option \<Rightarrow> program option" where
  "getProgramIn progs pid = find_or_first (\<lambda>p. Some (prog_id p) = pid) progs"

definition getProgram :: "string option \<Rightarrow> program option" where
  "getProgram pid = getProgramIn PROGRAMS pid"

text \<open>
  \<open>getStructure\<close> reads \<open>prog.structures\<close> of the program found; on an undefined program
  that read would throw, which is the result \<open>None\<close> as well.
\<close>

definition getStructure :: "string option \<Rightarrow> string option \<Rightarrow> structure option" where
  "getStructure progId structId =
     (case getProgram progId of
        None \<Rightarrow> None
      | Some prog \<Rightarrow> find_or_first (\<lambda>s. Some (struct_id s) = structId) (structures prog))"

subsection \<open>Client-side CFR match helper\<close>








subsection \<open>Time values and the calendar\<close>

text \<open>
  The calendar functions are those of the ECMAScript \<open>Date\<close> abstract operations:
  \<open>Day\<close>, \<open>TimeWithinDay\<close>, \<open>DayFromYear\<close>, \<open>YearFromTime\<close>, \<open>MonthFromTime\<close>,
  \<open>DateFromTime\<close>, \<open>WeekDay\<close> and \<open>MakeDay\<close>. \<open>div\<close> and \<open>mod\<close> on \<open>int\<close> round
  toward minus infinity, as the operations require.
\<close>

definition msPerDay :: int where
  "msPerDay = 86400000"

definition Day :: "int \<Rightarrow> int" where
  "Day t = t div msPerDay"

definition TimeWithinDay :: "int \<Rightarrow> int" where
  "TimeWithinDay t = t mod msPerDay"

definition DayFromYear :: "int \<Rightarrow> int" where
  "DayFromYear y =
     365 * (y - 1970) + (y - 1969) div 4 - (y - 1901) div 100 + (y - 1601) div 400"

definition leap_year :: "int \<Rightarrow> bool" where
  "leap_year y = ((y mod 4 = 0 \<and> y mod 100 \<noteq> 0) \<or> y mod 400 = 0)"

text \<open>
  \<open>YearFromTime\<close> is the largest year whose first day is not after the given day. It is
  computed by a search upward from a year that is certainly not too large.
\<close>

function year_search :: "int \<Rightarrow> int \<Rightarrow> int" where
  "year_search y d = (if DayFromYear (y + 1) \<le> d then year_search (y + 1) d else y)"
  by pat_completeness auto
termination
proof (relation "measure (\<lambda>(y, d). nat (d + 1 - DayFromYear (y + 1)))")
  show "wf (measure (\<lambda>(y, d). nat (d + 1 - DayFromYear (y + 1))))"
    by simp
next
  fix y d :: int
  assume le: "DayFromYear (y + 1) \<le> d"
  define z where "z = y + 1"
  have a: "(z - 1969) div 4 \<le> (z + 1 - 1969) div 4"
    by (rule zdiv_mono1) simp_all
  have b: "(z + 1 - 1901) div 100 \<le> (z - 1901 + 100) div 100"
    by (rule zdiv_mono1) simp_all
  have b': "(z - 1901 + 100) div 100 = (z - 1901) div 100 + 1"
    by simp
  have c: "(z - 1601) div 400 \<le> (z + 1 - 1601) div 400"
    by (rule zdiv_mono1) simp_all
  have aux: "\<And>p p' q q' r r' :: int. p \<le> p' \<Longrightarrow> q' \<le> q + 1 \<Longrightarrow> r \<le> r' \<Longrightarrow>
      365 * (z - 1970) + p - q + r < 365 * (z + 1 - 1970) + p' - q' + r'"
    by (simp add: algebra_simps)
  have "DayFromYear z < DayFromYear (z + 1)"
    unfolding DayFromYear_def using a b c unfolding b' by (rule aux)
  then have "DayFromYear (y + 1) < DayFromYear (y + 1 + 1)"
    by (simp add: z_def)
  with le show "((y + 1, d), (y, d)) \<in> measure (\<lambda>(y, d). nat (d + 1 - DayFromYear (y + 1)))"
    by simp
qed

declare year_search.simps [simp del]

definition year_lower :: "int \<Rightarrow> int" where
  "year_lower d = (if 0 \<le> d then 1970 + d div 366 else 1970 + d div 365)"

definition YearFromDay :: "int \<Rightarrow> int" where
  "YearFromDay d = year_search (year_lower d) d"

definition YearFromTime :: "int \<Rightarrow> int" where
  "YearFromTime t = YearFromDay (Day t)"

definition DayWithinYear :: "int \<Rightarrow> int" where
  "DayWithinYear t = Day t - DayFromYear (YearFromTime t)"

text \<open>The day within the year on which month \<open>m\<close> (0 to 11) begins.\<close>

definition month_start :: "bool \<Rightarrow> int \<Rightarrow> int" where
  "month_start leap m =
     (if m = 0 then 0 else if m = 1 then 31
      else [59, 90, 120, 151, 181, 212, 243, 273, 304, 334] ! nat (m - 2)
           + (if leap then 1 else 0))"

definition MonthFromTime :: "int \<Rightarrow> int" where
  "MonthFromTime t =
     (let leap = leap_year (YearFromTime t); dwy = DayWithinYear t in
      if dwy < month_start leap 1 then 0
      else if dwy < month_start leap 2 then 1
      else if dwy < month_start leap 3 then 2
      else if dwy < month_start leap 4 then 3
      else if dwy < month_start leap 5 then 4
      else if dwy < month_start leap 6 then 5
      else if dwy < month_start leap 7 then 6
      else if dwy < month_start leap 8 then 7
      else if dwy < month_start leap 9 then 8
      else if dwy < month_start leap 10 then 9
      else if dwy < month_start leap 11 then 10
      else 11)"

definition DateFromTime :: "int \<Rightarrow> int" where
  "DateFromTime t =
     DayWithinYear t - month_start (leap_year (YearFromTime t)) (MonthFromTime t) + 1"

definition WeekDay :: "int \<Rightarrow> int" where
  "WeekDay t = (Day t + 4) mod 7"

definition MakeDay :: "int \<Rightarrow> int \<Rightarrow> int \<Rightarrow> int" where
  "MakeDay year month date =
     (let ym = year + month div 12; mn = month mod 12 in
      DayFromYear ym + month_start (leap_year ym) mn + date - 1)"

definition MakeDate :: "int \<Rightarrow> int \<Rightarrow> int" where
  "MakeDate day time = day * msPerDay + time"

text \<open>
  \<open>fmtDate\<close>, that is \<open>d3.timeFormat("%Y-%m-%d")\<close>: the calendar date of a time value,
  as its day number.
\<close>

definition fmtDate :: "int \<Rightarrow> int" where
  "fmtDate t = Day t"

text \<open>\<open>new Date(`${publication_date}T00:00:00`)\<close>: local midnight of a calendar date.\<close>

definition midnight :: "int \<Rightarrow> int" where
  "midnight day = MakeDate day 0"

definition normRange :: "int \<Rightarrow> int \<Rightarrow> int \<times> int" where
  "normRange s e = (if s \<le> e then (s, e) else (e, s))"

subsection \<open>Time intervals of d3-time\<close>

text \<open>
  A d3 interval is built by \<open>timeInterval(floori, offseti, count)\<close> from a floor and an
  offset function; \<open>floor\<close>, \<open>ceil\<close>, \<open>offset\<close> and \<open>range\<close> are derived from the two
  the same way for every interval. \<open>count\<close> is the number of boundaries after a floored
  start up to a floored end, rounded down as \<open>interval.count\<close> does.
\<close>

record interval =
  floori :: "int \<Rightarrow> int"
  offseti :: "int \<Rightarrow> int \<Rightarrow> int"
  count :: "int \<Rightarrow> int \<Rightarrow> int"

definition iv_ceil :: "interval \<Rightarrow> int \<Rightarrow> int" where
  "iv_ceil iv t = floori iv (offseti iv (floori iv (t - 1)) 1)"

text \<open>
  The loop of \<open>interval.range\<close> with step 1:
  \<open>do { range.push(previous = start); offseti(start, 1); floori(start) }
   while (previous < start && start < stop)\<close>.
\<close>

function range_loop :: "interval \<Rightarrow> int \<Rightarrow> int \<Rightarrow> int list" where
  "range_loop iv start stop =
     start # (if start < floori iv (offseti iv start 1) \<and> floori iv (offseti iv start 1) < stop
              then range_loop iv (floori iv (offseti iv start 1)) stop
              else [])"
  by pat_completeness auto
termination
  by (relation "measure (\<lambda>(iv, start, stop). nat (stop - start))") auto

declare range_loop.simps [simp del]

definition iv_range :: "interval \<Rightarrow> int \<Rightarrow> int \<Rightarrow> int list" where
  "iv_range iv start stop =
     (let st = iv_ceil iv start in if \<not> st < stop then [] else range_loop iv st stop)"

text \<open>
  \<open>timeDay\<close>: \<open>setHours(0,0,0,0)\<close>; \<open>setDate(getDate() + step)\<close>.
  \<open>timeWeek\<close> (weeks begin on Sunday): \<open>setDate(getDate() - (getDay() + 7) % 7)\<close>, then
  \<open>setHours(0,0,0,0)\<close>; \<open>setDate(getDate() + step * 7)\<close>.
  \<open>timeMonth\<close>: \<open>setDate(1)\<close>, \<open>setHours(0,0,0,0)\<close>; \<open>setMonth(getMonth() + step)\<close>.
  \<open>timeYear\<close>: \<open>setMonth(0, 1)\<close>, \<open>setHours(0,0,0,0)\<close>; \<open>setFullYear(getFullYear() + step)\<close>.
  Each setter rebuilds the time value with \<open>MakeDay\<close> from the changed calendar fields
  and keeps the fields it does not set.
\<close>

definition setDate :: "int \<Rightarrow> int \<Rightarrow> int" where
  "setDate t dt = MakeDate (MakeDay (YearFromTime t) (MonthFromTime t) dt) (TimeWithinDay t)"

definition setMonth :: "int \<Rightarrow> int \<Rightarrow> int" where
  "setMonth t m = MakeDate (MakeDay (YearFromTime t) m (DateFromTime t)) (TimeWithinDay t)"

definition setFullYear :: "int \<Rightarrow> int \<Rightarrow> int" where
  "setFullYear t y = MakeDate (MakeDay y (MonthFromTime t) (DateFromTime t)) (TimeWithinDay t)"

definition setHours0 :: "int \<Rightarrow> int" where
  "setHours0 t = MakeDate (Day t) 0"

definition timeDay :: interval where
  "timeDay = \<lparr>floori = setHours0,
              offseti = (\<lambda>t step. setDate t (DateFromTime t + step)),
              count = (\<lambda>s e. (e - s) div msPerDay)\<rparr>"

definition timeWeek :: interval where
  "timeWeek = \<lparr>floori = (\<lambda>t. setHours0 (setDate t (DateFromTime t - (WeekDay t + 7) mod 7))),
               offseti = (\<lambda>t step. setDate t (DateFromTime t + step * 7)),
               count = (\<lambda>s e. (e - s) div (7 * msPerDay))\<rparr>"

definition timeMonth :: interval where
  "timeMonth = \<lparr>floori = (\<lambda>t. setHours0 (setDate t 1)),
                offseti = (\<lambda>t step. setMonth t (MonthFromTime t + step)),
                count = (\<lambda>s e. MonthFromTime e - MonthFromTime s
                                + (YearFromTime e - YearFromTime s) * 12)\<rparr>"

definition timeYear :: interval where
  "timeYear = \<lparr>floori = (\<lambda>t. setHours0 (MakeDate (MakeDay (YearFromTime t) 0 1) (TimeWithinDay t))),
               offseti = (\<lambda>t step. setFullYear t (YearFromTime t + step)),
               count = (\<lambda>s e. YearFromTime e - YearFromTime s)\<rparr>"

text \<open>\<open>tickCfg\<close>: the interval of a zoom unit; an unknown unit is treated as months.\<close>

definition tickCfg :: "string \<Rightarrow> interval" where
  "tickCfg u =
     (let l = (if u = [] then ''months'' else map lower_char u) in
      if l = ''days'' then timeDay
      else if l = ''weeks'' then timeWeek
      else if l = ''months'' then timeMonth
      else if l = ''years'' then timeYear
      else timeMonth)"

subsection \<open>The registry as seen through \<open>fetch\<close>\<close>

text \<open>
  The parameters of one request, as \<open>toQuery\<close> writes them into the URL. \<open>per_page\<close>
  (1000), \<open>order\<close> (newest), the field list and the type list are the same in every
  request and are not repeated here. The two dates are the day numbers of the strings
  \<open>fmtDate\<close> prints. A condition that is left out of the URL is \<open>None\<close>.
\<close>

record query =
  q_page :: nat
  q_gte :: int
  q_lte :: int
  q_topic :: "string option"
  q_agencies :: "string list option"
  q_cfr_title :: "int option"
  q_cfr_part :: "string option"

text \<open>The JSON body: \<open>results\<close> is \<open>None\<close> when it is not an array, \<open>total_pages\<close> is
  \<open>None\<close> when it is not a finite number.\<close>

record payload =
  results :: "rawdoc list option"
  total_pages :: "int option"

text \<open>
  What \<open>await fetch(url)\<close> gives: the promise rejects with an error message, or resolves
  to a response with a status, a body text (\<open>None\<close> when reading it fails) and the
  parsed JSON (\<open>Inl\<close> the message of the error \<open>r.json()\<close> throws).
\<close>

datatype response =
  Rejected string
| Response nat "string option" "string + payload"

text \<open>\<open>r.ok\<close>: the status is in the range 200 to 299.\<close>

definition ok :: "nat \<Rightarrow> bool" where
  "ok status = (200 \<le> status \<and> status \<le> 299)"

text \<open>
  The network is a state transformer: a request in a state of the world gives a response
  and the next state. A fetcher is run against any such world.
\<close>

type_synonym 'w fetch = "'w \<Rightarrow> query \<Rightarrow> response \<times> 'w"

datatype js_error = Error string

text \<open>Decimal digits of a number, as template interpolation prints it.\<close>

fun show_nat :: "nat \<Rightarrow> string" where
  "show_nat n =
     (if n < 10 then [''0123456789'' ! n]
      else show_nat (n div 10) @ [''0123456789'' ! (n mod 10)])"

text \<open>\<open>`FR fetch failed (${r.status})${detail ? `: ${detail.slice(0, 300)}` : ""}`\<close>\<close>

definition fail_message :: "nat \<Rightarrow> string option \<Rightarrow> string" where
  "fail_message status body =
     (let detail = (case body of None \<Rightarrow> [] | Some t \<Rightarrow> t) in
      ''FR fetch failed ('' @ show_nat status @ '')''
        @ (if detail \<noteq> [] then '': '' @ take 300 detail else []))"

subsection \<open>Federal Register fetchers\<close>

record filters =
  topic :: string
  programArea :: string
  structureId :: string
  cfrTitle :: int
  cfrPart :: string

record fetch_opts =
  opt_start :: int
  opt_end :: int
  opt_filters :: filters
  skipCfrTitle :: bool
  opt_agencies :: "string list option"

text \<open>The test \<open>/^[a-z0-9-]+$/\<close>: one or more characters, each a lower-case letter, a
  digit or a hyphen.\<close>

definition topic_char :: "char \<Rightarrow> bool" where
  "topic_char c = (c \<in> set ''abcdefghijklmnopqrstuvwxyz0123456789-'')"

definition topic_ok :: "string \<Rightarrow> bool" where
  "topic_ok t = (t \<noteq> [] \<and> list_all topic_char t)"

definition baseParams :: "fetch_opts \<Rightarrow> query" where
  "baseParams opts =
     (let (s, e) = normRange (opt_start opts) (opt_end opts); f = opt_filters opts in
      \<lparr>q_page = 1,
       q_gte = fmtDate s,
       q_lte = fmtDate e,
       q_topic = (if topic f \<noteq> [] \<and> topic_ok (topic f) then Some (topic f) else None),
       q_agencies = (case opt_agencies opts of
                       None \<Rightarrow> None
                     | Some ags \<Rightarrow> if ags \<noteq> [] then Some ags else None),
       q_cfr_title = (if cfrTitle f \<noteq> 0 \<and> \<not> skipCfrTitle opts then Some (cfrTitle f) else None),
       q_cfr_part = (if cfrTitle f \<noteq> 0 \<and> \<not> skipCfrTitle opts \<and> cfrPart f \<noteq> []
                     then Some (cfrPart f) else None)\<rparr>)"

text \<open>\<open>{ ...d, _pub: d.publication_date ? new Date(...) : null }\<close>\<close>

definition with_pub :: "rawdoc \<Rightarrow> doc" where
  "with_pub d =
     \<lparr>doc_type = doc_type d, doc_title = doc_title d, document_number = document_number d,
      publication_date = publication_date d, cfr_references = cfr_references d,
      agencies = agencies d, pub = map_option midnight (publication_date d)\<rparr>"

text \<open>
  The deduplicating loop over a batch, the same in \<open>fetchFR\<close>, \<open>fetchFRSpan\<close> and
  \<open>load\<close>: \<open>if (seen.has(key)) continue; seen.add(key); all.push(conv d)\<close>.
\<close>

fun push_new :: "('a \<Rightarrow> string) \<Rightarrow> ('a \<Rightarrow> 'b) \<Rightarrow> 'a list \<Rightarrow> 'b list \<Rightarrow> string set
    \<Rightarrow> 'b list \<times> string set" where
  "push_new key conv [] all seen = (all, seen)"
| "push_new key conv (d # ds) all seen =
     (if key d \<in> seen then push_new key conv ds all seen
      else push_new key conv ds (all @ [conv d]) (insert (key d) seen))"

definition HARD_MAX :: nat where
  "HARD_MAX = 100"

text \<open>
  The paging loop of \<open>fetchFR\<close>, \<open>while (page <= totalPages && page <= HARD_MAX)\<close>.
  \<open>totalPages\<close> is \<open>None\<close> while it is \<open>Infinity\<close>. A thrown error is the result \<open>Inl\<close>;
  the world is returned as the last request left it.
\<close>

text \<open>\<open>Array.isArray(data?.results) ? data.results : []\<close>\<close>

definition page_results :: "payload \<Rightarrow> rawdoc list" where
  "page_results data = (case results data of None \<Rightarrow> [] | Some r \<Rightarrow> r)"

text \<open>\<open>Number.isFinite(+data?.total_pages) && +data.total_pages > 0 ? +data.total_pages
  : totalPages\<close>\<close>

definition next_total :: "payload \<Rightarrow> int option \<Rightarrow> int option" where
  "next_total data totalPages =
     (case total_pages data of None \<Rightarrow> totalPages
      | Some n \<Rightarrow> if 0 < n then Some n else totalPages)"

definition more_pages :: "nat \<Rightarrow> int option \<Rightarrow> bool" where
  "more_pages page totalPages =
     ((case totalPages of None \<Rightarrow> True | Some n \<Rightarrow> int page \<le> n) \<and> page \<le> HARD_MAX)"

function fetch_pages :: "'w fetch \<Rightarrow> query \<Rightarrow> nat \<Rightarrow> int option \<Rightarrow> doc list \<Rightarrow> string set
    \<Rightarrow> 'w \<Rightarrow> (js_error + doc list) \<times> 'w" where
  "fetch_pages F q page totalPages all seen w =
     (if more_pages page totalPages then
        (case F w (q\<lparr>q_page := page\<rparr>) of
           (Rejected m, w') \<Rightarrow> (Inl (Error m), w')
         | (Response status body js, w') \<Rightarrow>
             if \<not> ok status then (Inl (Error (fail_message status body)), w')
             else (case js of
                     Inl m \<Rightarrow> (Inl (Error m), w')
                   | Inr data \<Rightarrow>
                       (let rs = page_results data;
                            acc = push_new docKey with_pub rs all seen;
                            totalPages' = next_total data totalPages
                        in if length rs < 1000 then (Inr (fst acc), w')
                           else fetch_pages F q (page + 1) totalPages' (fst acc) (snd acc) w')))
      else (Inr all, w))"
  by pat_completeness auto
termination
  by (relation "measure (\<lambda>(F, q, page, totalPages, all, seen, w). HARD_MAX + 1 - page)")
    (auto simp: more_pages_def)

declare fetch_pages.simps [simp del]

definition fetchFR :: "'w fetch \<Rightarrow> fetch_opts \<Rightarrow> 'w \<Rightarrow> (js_error + doc list) \<times> 'w" where
  "fetchFR F opts w = fetch_pages F (baseParams opts) 1 None [] {} w"

text \<open>
  The loop of \<open>fetchFRSpan\<close> over the year edges: \<open>a\<close> is the current edge, \<open>b\<close> the next
  one, or \<open>a\<close> plus one year after the last.
\<close>

fun span_loop :: "'w fetch \<Rightarrow> fetch_opts \<Rightarrow> int \<Rightarrow> int \<Rightarrow> int list \<Rightarrow> doc list \<Rightarrow> string set
    \<Rightarrow> 'w \<Rightarrow> (js_error + doc list) \<times> 'w" where
  "span_loop F opts s e [] out seen w = (Inr out, w)"
| "span_loop F opts s e (a # edges) out seen w =
     (let b = (case edges of [] \<Rightarrow> offseti timeYear a 1 | b' # _ \<Rightarrow> b') in
      case fetchFR F (opts\<lparr>opt_start := max s a,
                           opt_end := min e (offseti timeDay b (- 1))\<rparr>) w of
        (Inl err, w') \<Rightarrow> (Inl err, w')
      | (Inr batch, w') \<Rightarrow>
          (let acc = push_new docKey (\<lambda>d. d) batch out seen
           in span_loop F opts s e edges (fst acc) (snd acc) w'))"

definition fetchFRSpan :: "'w fetch \<Rightarrow> fetch_opts \<Rightarrow> 'w \<Rightarrow> (js_error + doc list) \<times> 'w" where
  "fetchFRSpan F opts w =
     (let (s, e) = normRange (opt_start opts) (opt_end opts) in
      if e - s < 1000 * 60 * 60 * 24 * 548 then fetchFR F opts w
      else span_loop F opts s e
             (iv_range timeYear (floori timeYear s) (offseti timeYear (floori timeYear e) 1))
             [] {} w)"

subsection \<open>Component state and \<open>load\<close>\<close>

record enabled =
  en_PRORULE :: bool
  en_RULE :: bool
  en_NOTICE :: bool
  en_PRESDOCU :: bool

definition is_enabled :: "enabled \<Rightarrow> kind \<Rightarrow> bool" where
  "is_enabled en k =
     (case k of PRORULE \<Rightarrow> en_PRORULE en | RULE \<Rightarrow> en_RULE en
      | NOTICE \<Rightarrow> en_NOTICE en | PRESDOCU \<Rightarrow> en_PRESDOCU en)"

record app_state =
  st_start :: int
  st_end :: int
  zoomUnit :: string
  bucket :: bool
  st_filters :: filters
  docs :: "doc list"
  loading :: bool
  error :: string
  enabledTypes :: enabled
  includeNoCfr :: bool
  active :: "int option"
  bucketLoading :: bool












subsection \<open>Series and buckets\<close>

record counts =
  pr :: nat
  ru :: nat
  no :: nat
  pd :: nat

record row = counts +
  date :: int
  tot :: nat

definition init :: counts where
  "init = \<lparr>pr = 0, ru = 0, no = 0, pd = 0\<rparr>"

definition bump :: "kind \<Rightarrow> counts \<Rightarrow> counts" where
  "bump k c =
     (case k of PRORULE \<Rightarrow> c\<lparr>pr := pr c + 1\<rparr> | RULE \<Rightarrow> c\<lparr>ru := ru c + 1\<rparr>
      | NOTICE \<Rightarrow> c\<lparr>no := no c + 1\<rparr> | PRESDOCU \<Rightarrow> c\<lparr>pd := pd c + 1\<rparr>)"

text \<open>The interval in force: the zoom unit's when aggregating, else days.\<close>

definition active_interval :: "string \<Rightarrow> bool \<Rightarrow> interval" where
  "active_interval zoom agg = (if agg then tickCfg zoom else timeDay)"

definition bins_of :: "interval \<Rightarrow> int \<Rightarrow> int \<Rightarrow> int list" where
  "bins_of iv start end =
     (let (s, e) = normRange start end;
          s0 = floori timeDay s; e0 = floori timeDay e;
          bins = iv_range iv (floori iv s0) (offseti iv (floori iv e0) 1)
      in if bins = [] then [floori iv s0] else bins)"

text \<open>
  The counting loop of \<open>series\<close>. The map is keyed by the printed date of the floored
  publication date; a document without \<open>_pub\<close>, without a category or with a disabled
  category is skipped.
\<close>

fun count_docs :: "interval \<Rightarrow> enabled \<Rightarrow> doc list \<Rightarrow> (int \<rightharpoonup> counts) \<Rightarrow> (int \<rightharpoonup> counts)" where
  "count_docs iv en [] m = m"
| "count_docs iv en (d # ds) m =
     (case pub d of
        None \<Rightarrow> count_docs iv en ds m
      | Some p \<Rightarrow>
          (case normalizeDocType (doc_type d) of
             None \<Rightarrow> count_docs iv en ds m
           | Some k \<Rightarrow>
               if \<not> is_enabled en k then count_docs iv en ds m
               else (let key = fmtDate (floori iv p);
                         base = (case m key of None \<Rightarrow> init | Some c \<Rightarrow> c)
                     in count_docs iv en ds (m(key \<mapsto> bump k base)))))"

definition mk_row :: "int \<Rightarrow> counts \<Rightarrow> row" where
  "mk_row dt c = \<lparr>pr = pr c, ru = ru c, no = no c, pd = pd c, date = dt,
                  tot = pr c + ru c + no c + pd c\<rparr>"

definition series_of :: "doc list \<Rightarrow> int \<Rightarrow> int \<Rightarrow> interval \<Rightarrow> enabled \<Rightarrow> row list" where
  "series_of ds start end iv en =
     (let bins = bins_of iv start end;
          m = count_docs iv en ds (map_of (map (\<lambda>dt. (fmtDate dt, init)) bins))
      in map (\<lambda>dt. mk_row dt (case m (fmtDate dt) of None \<Rightarrow> init | Some c \<Rightarrow> c)) bins)"

definition series :: "app_state \<Rightarrow> row list" where
  "series st =
     series_of (docs st) (st_start st) (st_end st)
       (active_interval (zoomUnit st) (bucket st)) (enabledTypes st)"

text \<open>Bucket to documents: the documents the chart counts, by floored publication time.\<close>

fun bucket_docs :: "interval \<Rightarrow> enabled \<Rightarrow> doc list \<Rightarrow> (int \<rightharpoonup> doc list) \<Rightarrow> (int \<rightharpoonup> doc list)" where
  "bucket_docs iv en [] m = m"
| "bucket_docs iv en (d # ds) m =
     (case pub d of
        None \<Rightarrow> bucket_docs iv en ds m
      | Some p \<Rightarrow>
          (case normalizeDocType (doc_type d) of
             None \<Rightarrow> bucket_docs iv en ds m
           | Some k \<Rightarrow>
               if \<not> is_enabled en k then bucket_docs iv en ds m
               else (let key = floori iv p in
                     case m key of
                       Some arr \<Rightarrow> bucket_docs iv en ds (m(key \<mapsto> arr @ [d]))
                     | None \<Rightarrow> bucket_docs iv en ds (m(key \<mapsto> [d])))))"

definition bucketMap :: "app_state \<Rightarrow> (int \<rightharpoonup> doc list)" where
  "bucketMap st =
     bucket_docs (active_interval (zoomUnit st) (bucket st)) (enabledTypes st) (docs st) Map.empty"

text \<open>
  The stable sort of the drill-down list by \<open>String(a.type).localeCompare(String(b.type))\<close>;
  the collation \<open>lc\<close> of the locale is a parameter. An element is inserted into the
  sorted rest of the list before the first element it does not follow, so equal
  elements keep their order.
\<close>

fun insert_by :: "('a \<Rightarrow> 'a \<Rightarrow> int) \<Rightarrow> 'a \<Rightarrow> 'a list \<Rightarrow> 'a list" where
  "insert_by cmp x [] = [x]"
| "insert_by cmp x (y # ys) = (if cmp x y \<le> 0 then x # y # ys else y # insert_by cmp x ys)"

definition sort_by :: "('a \<Rightarrow> 'a \<Rightarrow> int) \<Rightarrow> 'a list \<Rightarrow> 'a list" where
  "sort_by cmp xs = foldr (insert_by cmp) xs []"

definition bucketDocs :: "(string \<Rightarrow> string \<Rightarrow> int) \<Rightarrow> app_state \<Rightarrow> doc list" where
  "bucketDocs lc st =
     (case active st of
        None \<Rightarrow> []
      | Some a \<Rightarrow>
          (let key = floori (active_interval (zoomUnit st) (bucket st)) a;
               arr = (case bucketMap st key of None \<Rightarrow> [] | Some ds \<Rightarrow> ds)
           in sort_by (\<lambda>a b. lc (js_str (doc_type a)) (js_str (doc_type b))) arr))"

subsection \<open>Click on the chart\<close>

text \<open>
  \<open>d3.bisector((d) => d.date).left\<close>: binary search for the first index whose date is
  not before \<open>x\<close>, between \<open>lo\<close> and \<open>hi\<close>.
\<close>

function bisect_left :: "int list \<Rightarrow> int \<Rightarrow> nat \<Rightarrow> nat \<Rightarrow> nat" where
  "bisect_left a x lo hi =
     (if lo < hi then
        (if a ! ((lo + hi) div 2) < x then bisect_left a x ((lo + hi) div 2 + 1) hi
         else bisect_left a x lo ((lo + hi) div 2))
      else lo)"
  by pat_completeness auto
termination
  by (relation "measure (\<lambda>(a, x, lo, hi). hi - lo)") auto

declare bisect_left.simps [simp del]

text \<open>
  The index the click handler settles on, for the clicked time \<open>x0 = x.invert(cx)\<close> and
  the dates of a non-empty series:
  \<open>i = max(0, min(n - 1, bisect(series, x0)))\<close>, then one step to the left when the left
  neighbour is strictly nearer.
\<close>

definition click_index :: "int list \<Rightarrow> int \<Rightarrow> nat" where
  "click_index dates x0 =
     (let n = length dates;
          i = max 0 (min (n - 1) (bisect_left dates x0 0 n))
      in if 0 < i \<and> i < n then
           (let dL = \<bar>x0 - dates ! (i - 1)\<bar>; dR = \<bar>x0 - dates ! i\<bar>
            in if dL < dR then i - 1 else i)
         else i)"

text \<open>
  Whether the chart effect draws the chart and its overlay: it returns before that, leaving
  a note in place of the chart, when the series is empty or every total is 0.
\<close>

definition chart_drawn :: "row list \<Rightarrow> bool" where
  "chart_drawn drawSeries \<longleftrightarrow> \<not> (drawSeries = [] \<or> list_all (\<lambda>d. tot d = 0) drawSeries)"

text \<open>
  A click on the chart area at the time \<open>x0\<close>. The overlay and its handler exist only when
  the chart was drawn; else the click reaches nothing and the state stays. The handler
  makes the bucket it settles on active. \<open>drawSeries\<close> is the series itself: its filter
  drops rows without a valid date, and every row of the series has one.
\<close>

definition click :: "app_state \<Rightarrow> int \<Rightarrow> app_state" where
  "click st x0 =
     (let drawSeries = series st in
      if \<not> chart_drawn drawSeries then st
      else if drawSeries = [] then st
      else st\<lparr>bucketLoading := True,
              active := Some (date (drawSeries ! click_index (map date drawSeries) x0))\<rparr>)"

subsection \<open>Reference notions and sample data\<close>

text \<open>The length of a year, and the day within the year after the last day of a month.\<close>

definition days_in_year :: "int \<Rightarrow> int" where
  "days_in_year y = (if leap_year y then 366 else 365)"

definition month_end :: "bool \<Rightarrow> int \<Rightarrow> int" where
  "month_end l m = (if m = 11 then (if l then 366 else 365) else month_start l (m + 1))"

text \<open>
  The buckets of an interval, numbered by the integers: \<open>idx\<close> gives the number of the
  bucket a time falls in and \<open>bnd\<close> the boundary at which a bucket begins. An interval
  is described by such a numbering when the boundaries increase, each time lies in its
  bucket, \<open>floor\<close> returns the boundary of the bucket, \<open>offset\<close> by one steps from a
  boundary to the next, boundaries are midnights, and \<open>count\<close> is the difference of the
  bucket numbers.
\<close>

definition interval_spec :: "interval \<Rightarrow> (int \<Rightarrow> int) \<Rightarrow> (int \<Rightarrow> int) \<Rightarrow> bool" where
  "interval_spec iv idx bnd \<longleftrightarrow>
     (\<forall>i. bnd i < bnd (i + 1))
     \<and> (\<forall>t. bnd (idx t) \<le> t \<and> t < bnd (idx t + 1))
     \<and> (\<forall>t. floori iv t = bnd (idx t))
     \<and> (\<forall>i. offseti iv (bnd i) 1 = bnd (i + 1))
     \<and> (\<forall>i. TimeWithinDay (bnd i) = 0)
     \<and> (\<forall>i j. count iv (bnd i) (bnd j) = j - i)"

definition day_index :: "int \<Rightarrow> int" where
  "day_index t = Day t"

definition day_bound :: "int \<Rightarrow> int" where
  "day_bound i = i * msPerDay"

definition week_index :: "int \<Rightarrow> int" where
  "week_index t = (Day t + 4) div 7"

definition week_bound :: "int \<Rightarrow> int" where
  "week_bound i = (7 * i - 4) * msPerDay"

definition month_index :: "int \<Rightarrow> int" where
  "month_index t = 12 * YearFromTime t + MonthFromTime t"

definition month_day :: "int \<Rightarrow> int" where
  "month_day i = MakeDay (i div 12) (i mod 12) 1"

definition month_bound :: "int \<Rightarrow> int" where
  "month_bound i = month_day i * msPerDay"

definition year_index :: "int \<Rightarrow> int" where
  "year_index t = YearFromTime t"

definition year_bound :: "int \<Rightarrow> int" where
  "year_bound y = DayFromYear y * msPerDay"

text \<open>
  The topic token in the words of the data model: a non-empty string of alphanumeric
  characters and hyphens.
\<close>

definition spec_topic_token :: "string \<Rightarrow> bool" where
  "spec_topic_token t =
     (t \<noteq> [] \<and> set t \<subseteq> set (''abcdefghijklmnopqrstuvwxyz'' @ ''ABCDEFGHIJKLMNOPQRSTUVWXYZ''
                                  @ ''0123456789'' @ ''-''))"

text \<open>
  A model of the remote registry, following the interface of section 6 of the
  specification: it holds a fixed list of records, answers a query with the records
  published within the two dates, newest first, in pages of 1000, and reports the
  number of pages. The other conditions of a query are the same in every request of a
  fetch and are taken to have been applied to the list already.
\<close>

definition in_range :: "int \<Rightarrow> int \<Rightarrow> rawdoc \<Rightarrow> bool" where
  "in_range lo hi d = (case publication_date d of None \<Rightarrow> False | Some p \<Rightarrow> lo \<le> p \<and> p \<le> hi)"

definition newer :: "rawdoc \<Rightarrow> rawdoc \<Rightarrow> int" where
  "newer a b = (case (publication_date a, publication_date b) of
                  (Some p, Some r) \<Rightarrow> r - p | _ \<Rightarrow> 0)"

definition registry_matches :: "rawdoc list \<Rightarrow> query \<Rightarrow> rawdoc list" where
  "registry_matches db q = sort_by newer (filter (in_range (q_gte q) (q_lte q)) db)"

definition registry :: "rawdoc list \<Rightarrow> 'w fetch" where
  "registry db w q =
     (let M = registry_matches db q in
      (Response 200 None
         (Inr \<lparr>results = Some (take 1000 (drop (1000 * (q_page q - 1)) M)),
               total_pages = Some (int ((length M + 999) div 1000))\<rparr>), w))"

text \<open>What a fetch makes of a list of records: each identity once, first occurrence kept.\<close>

definition dedup :: "rawdoc list \<Rightarrow> doc list" where
  "dedup rs = fst (push_new docKey with_pub rs [] {})"

text \<open>The dates of the sub-range of year \<open>y\<close> within the days \<open>lo\<close> to \<open>hi\<close>.\<close>

definition year_gte :: "int \<Rightarrow> int \<Rightarrow> int" where
  "year_gte lo y = max lo (DayFromYear y)"

definition year_lte :: "int \<Rightarrow> int \<Rightarrow> int" where
  "year_lte hi y = min hi (DayFromYear (y + 1) - 1)"

text \<open>
  The span split in the words of the specification. The days \<open>lo\<close> to \<open>hi\<close> are
  partitioned into consecutive year-aligned sub-ranges, one for each calendar year from
  that of \<open>lo\<close> to that of \<open>hi\<close>: the days of the year that lie in the range. The fetch is
  run for the sub-ranges in turn, each from the first to the last of its days, and the
  results are merged under the deduplication by identity; an error of a sub-fetch ends
  the whole.
\<close>

definition spec_sub_ranges :: "int \<Rightarrow> int \<Rightarrow> (int \<times> int) list" where
  "spec_sub_ranges lo hi = map (\<lambda>y. (year_gte lo y, year_lte hi y)) [YearFromDay lo..YearFromDay hi]"

fun spec_split_fetch :: "'w fetch \<Rightarrow> fetch_opts \<Rightarrow> (int \<times> int) list \<Rightarrow> doc list \<Rightarrow> string set
    \<Rightarrow> 'w \<Rightarrow> (js_error + doc list) \<times> 'w" where
  "spec_split_fetch F opts [] out seen w = (Inr out, w)"
| "spec_split_fetch F opts ((lo, hi) # rs) out seen w =
     (case fetchFR F (opts\<lparr>opt_start := midnight lo, opt_end := midnight hi\<rparr>) w of
        (Inl err, w') \<Rightarrow> (Inl err, w')
      | (Inr batch, w') \<Rightarrow>
          (let acc = push_new docKey (\<lambda>d. d) batch out seen
           in spec_split_fetch F opts rs (fst acc) (snd acc) w'))"

text \<open>
  The single unsplit fetch of the specification over the model of the registry: all the
  records that the query of the whole range matches, each identity once, with no limit
  on their number.
\<close>

definition spec_unsplit_fetch :: "rawdoc list \<Rightarrow> fetch_opts \<Rightarrow> doc list" where
  "spec_unsplit_fetch db opts = dedup (registry_matches db (baseParams opts))"

text \<open>A world that replays a script of responses, whatever is asked; an exhausted
  script rejects.\<close>

definition scripted :: "response list fetch" where
  "scripted w q = (case w of [] \<Rightarrow> (Rejected ''Failed to fetch'', []) | r # rs \<Rightarrow> (r, rs))"

definition json_page :: "rawdoc list \<Rightarrow> int \<Rightarrow> response" where
  "json_page rs n = Response 200 None (Inr \<lparr>results = Some rs, total_pages = Some n\<rparr>)"

text \<open>Sample records: a rule of 2024-01-18 citing title 42 part 431, a notice of
  2024-02-27 without number and references, a record of an unknown type, and a rule
  citing title 7 part 273.\<close>

definition ex_rule :: rawdoc where
  "ex_rule = \<lparr>doc_type = Some ''Rule'', doc_title = Some ''Managed Care'',
              document_number = Some ''2024-00101'', publication_date = Some 19740,
              cfr_references = Some [Some \<lparr>ref_title = Some 42, ref_part = Some 431\<rparr>],
              agencies = Some [\<lparr>slug = Some ''centers-for-medicare-medicaid-services'',
                                name = Some ''CMS''\<rparr>]\<rparr>"

definition ex_notice :: rawdoc where
  "ex_notice = \<lparr>doc_type = Some ''Notice'', doc_title = Some ''Meeting'',
                document_number = None, publication_date = Some 19780,
                cfr_references = None, agencies = None\<rparr>"

definition ex_other :: rawdoc where
  "ex_other = \<lparr>doc_type = Some ''Correction'', doc_title = Some ''Erratum'',
               document_number = Some ''2024-00300'', publication_date = Some 19740,
               cfr_references = None, agencies = None\<rparr>"

definition ex_snap :: rawdoc where
  "ex_snap = \<lparr>doc_type = Some ''Proposed Rule'', doc_title = Some ''SNAP Certification'',
              document_number = Some ''2024-00400'', publication_date = Some 19750,
              cfr_references = Some [Some \<lparr>ref_title = Some 7, ref_part = Some 273\<rparr>],
              agencies = None\<rparr>"



definition ex_filters :: filters where
  "ex_filters = \<lparr>topic = [], programArea = ''MEDICAID'', structureId = ''MEDICAID-42C'',
                 cfrTitle = 42, cfrPart = []\<rparr>"

text \<open>The range 2024-01-15 to 2024-03-10.\<close>

definition ex_opts :: fetch_opts where
  "ex_opts = \<lparr>opt_start = midnight 19737, opt_end = midnight 19792, opt_filters = ex_filters,
              skipCfrTitle = False, opt_agencies = None\<rparr>"

definition ex_state :: app_state where
  "ex_state = \<lparr>st_start = midnight 19737, st_end = midnight 19792, zoomUnit = ''months'',
               bucket = True, st_filters = ex_filters,
               docs = map with_pub [ex_rule, ex_notice, ex_other],
               loading = False, error = [],
               enabledTypes = \<lparr>en_PRORULE = True, en_RULE = True, en_NOTICE = True,
                                en_PRESDOCU = True\<rparr>,
               includeNoCfr = True, active = Some (midnight 19723), bucketLoading = False\<rparr>"

text \<open>The range 2018-01-01 to 2019-07-03, a span of exactly 548 days.\<close>

definition ex_span_opts :: fetch_opts where
  "ex_span_opts = \<lparr>opt_start = midnight 17532, opt_end = midnight 18080,
                   opt_filters = ex_filters, skipCfrTitle = True, opt_agencies = None\<rparr>"

text \<open>The range 2018-01-01 to 2019-07-04, a span of 549 days.\<close>

definition ex_long_opts :: fetch_opts where
  "ex_long_opts = ex_span_opts\<lparr>opt_end := midnight 18081\<rparr>"

text \<open>Two records of the sample registry: one of 2018-06-01 and one of 2019-06-01.\<close>

definition ex_2018 :: rawdoc where
  "ex_2018 = \<lparr>doc_type = Some ''Rule'', doc_title = Some ''Eligibility'',
              document_number = Some ''2018-11111'', publication_date = Some 17683,
              cfr_references = None, agencies = None\<rparr>"

definition ex_2019 :: rawdoc where
  "ex_2019 = \<lparr>doc_type = Some ''Notice'', doc_title = Some ''Comment Request'',
              document_number = Some ''2019-22222'', publication_date = Some 18048,
              cfr_references = None, agencies = None\<rparr>"

text \<open>
  A large sample registry: the record of 2018-06-01 and, for each \<open>i\<close> below \<open>n\<close>, a
  record of 2019-06-01 whose document number is a run of \<open>i + 1\<close> digits; \<open>big_db\<close> has
  one record of 2019 more than 100 pages hold.
\<close>

definition big_record :: "nat \<Rightarrow> rawdoc" where
  "big_record i = \<lparr>doc_type = Some ''Notice'', doc_title = Some ''Bulk'',
                   document_number = Some (replicate (Suc i) CHR ''1''),
                   publication_date = Some 18048, cfr_references = None, agencies = None\<rparr>"

definition big_list :: "nat \<Rightarrow> rawdoc list" where
  "big_list n = ex_2018 # map big_record [0..<n]"

definition big_db :: "rawdoc list" where
  "big_db = big_list (1000 * HARD_MAX + 1)"

section \<open>Properties\<close>

subsection \<open>Structural match\<close>









subsection \<open>Catalog lookup\<close>

lemma find_or_first_total:
  assumes "xs \<noteq> []"
  shows "\<exists>x. find_or_first P xs = Some x \<and> x \<in> set xs
           \<and> ((\<exists>y \<in> set xs. P y) \<longrightarrow> P x)
           \<and> ((\<forall>y \<in> set xs. \<not> P y) \<longrightarrow> Some x = first_elem xs)"
proof (cases "List.find P xs")
  case None
  then have no: "\<forall>y \<in> set xs. \<not> P y"
    by (simp add: find_None_iff)
  from assms obtain x rest where xs: "xs = x # rest"
    by (cases xs) auto
  show ?thesis
    using None no xs by (auto simp: find_or_first_def first_elem_def)
next
  case (Some x)
  then have "x \<in> set xs" and "P x"
    by (auto simp: find_Some_iff)
  then show ?thesis
    using Some by (auto simp: find_or_first_def)
qed

lemma PROGRAMS_nonempty: "PROGRAMS \<noteq> []"
  by (simp add: PROGRAMS_def)

lemma PROGRAMS_structures_nonempty: "p \<in> set PROGRAMS \<Longrightarrow> structures p \<noteq> []"
  by (auto simp: PROGRAMS_def)

lemma getProgram_total:
  "\<exists>p. getProgram pid = Some p \<and> p \<in> set PROGRAMS
       \<and> ((\<exists>q \<in> set PROGRAMS. Some (prog_id q) = pid) \<longrightarrow> Some (prog_id p) = pid)
       \<and> ((\<forall>q \<in> set PROGRAMS. Some (prog_id q) \<noteq> pid) \<longrightarrow> Some p = first_elem PROGRAMS)"
  using find_or_first_total [OF PROGRAMS_nonempty, of "\<lambda>p. Some (prog_id p) = pid"]
  by (simp add: getProgram_def getProgramIn_def)

lemma getStructure_total:
  "\<exists>p s. getProgram pid = Some p \<and> getStructure pid sid = Some s \<and> s \<in> set (structures p)
       \<and> ((\<exists>t \<in> set (structures p). Some (struct_id t) = sid) \<longrightarrow> Some (struct_id s) = sid)
       \<and> ((\<forall>t \<in> set (structures p). Some (struct_id t) \<noteq> sid) \<longrightarrow>
             Some s = first_elem (structures p))"
proof -
  obtain p where p: "getProgram pid = Some p" "p \<in> set PROGRAMS"
    using getProgram_total [of pid] by blast
  have ne: "structures p \<noteq> []"
    using p(2) by (rule PROGRAMS_structures_nonempty)
  show ?thesis
    using find_or_first_total [OF ne, of "\<lambda>s. Some (struct_id s) = sid"] p(1)
    by (simp add: getStructure_def)
qed

text \<open>
  C10. Catalog lookup is total. For every program identifier, absent ones included,
  \<open>getProgram\<close> returns a program of the catalog: the one with that identifier if there
  is one, else the first program. For every structure identifier \<open>getStructure\<close>
  returns a structure of that program: the one with that identifier if the program has
  one, else the program's first structure.
\<close>

theorem catalog_lookup_total:
  "\<exists>p s. getProgram pid = Some p \<and> p \<in> set PROGRAMS
       \<and> ((\<exists>q \<in> set PROGRAMS. Some (prog_id q) = pid) \<longrightarrow> Some (prog_id p) = pid)
       \<and> ((\<forall>q \<in> set PROGRAMS. Some (prog_id q) \<noteq> pid) \<longrightarrow> Some p = first_elem PROGRAMS)
       \<and> getStructure pid sid = Some s \<and> s \<in> set (structures p)
       \<and> ((\<exists>t \<in> set (structures p). Some (struct_id t) = sid) \<longrightarrow> Some (struct_id s) = sid)
       \<and> ((\<forall>t \<in> set (structures p). Some (struct_id t) \<noteq> sid) \<longrightarrow>
             Some s = first_elem (structures p))"
proof -
  obtain p s where ps: "getProgram pid = Some p" "getStructure pid sid = Some s"
      "s \<in> set (structures p)"
      "(\<exists>t \<in> set (structures p). Some (struct_id t) = sid) \<longrightarrow> Some (struct_id s) = sid"
      "(\<forall>t \<in> set (structures p). Some (struct_id t) \<noteq> sid) \<longrightarrow> Some s = first_elem (structures p)"
    using getStructure_total [of pid sid] by blast
  obtain p' where p': "getProgram pid = Some p'" "p' \<in> set PROGRAMS"
      "(\<exists>q \<in> set PROGRAMS. Some (prog_id q) = pid) \<longrightarrow> Some (prog_id p') = pid"
      "(\<forall>q \<in> set PROGRAMS. Some (prog_id q) \<noteq> pid) \<longrightarrow> Some p' = first_elem PROGRAMS"
    using getProgram_total [of pid] by blast
  from ps(1) p'(1) have "p' = p" by simp
  with ps p' show ?thesis by blast
qed

theorem catalog_lookup_total_witness:
  "getProgram (Some ''no-such-program'')
     = Some \<lparr>prog_id = ''SNAP'', structures =
              [\<lparr>struct_id = ''SNAP-7C'', struct_title = 7, parts = seq 271 285 @ [292]\<rparr>]\<rparr>
   \<and> getStructure (Some ''MEDICAID'') None
     = Some \<lparr>struct_id = ''MEDICAID-42C'', struct_title = 42, parts = seq 430 456\<rparr>
   \<and> getStructure None (Some ''MEDICAID-42-CHIP'')
     = Some \<lparr>struct_id = ''SNAP-7C'', struct_title = 7, parts = seq 271 285 @ [292]\<rparr>
   \<and> (\<exists>p s. getProgram (Some ''ACA'') = Some p \<and> getStructure (Some ''ACA'') (Some ''ACA-26-54'') = Some s
         \<and> s \<in> set (structures p) \<and> struct_id s = ''ACA-26-54'')"
proof -
  have a: "getProgram (Some ''no-such-program'')
     = Some \<lparr>prog_id = ''SNAP'', structures =
              [\<lparr>struct_id = ''SNAP-7C'', struct_title = 7, parts = seq 271 285 @ [292]\<rparr>]\<rparr>"
    by (simp add: getProgram_def getProgramIn_def find_or_first_def first_elem_def PROGRAMS_def)
  have b: "getStructure (Some ''MEDICAID'') None
     = Some \<lparr>struct_id = ''MEDICAID-42C'', struct_title = 42, parts = seq 430 456\<rparr>"
    by (simp add: getStructure_def getProgram_def getProgramIn_def find_or_first_def
        first_elem_def PROGRAMS_def)
  have c: "getStructure None (Some ''MEDICAID-42-CHIP'')
     = Some \<lparr>struct_id = ''SNAP-7C'', struct_title = 7, parts = seq 271 285 @ [292]\<rparr>"
    by (simp add: getStructure_def getProgram_def getProgramIn_def find_or_first_def
        first_elem_def PROGRAMS_def)
  have m: "\<exists>t \<in> set (structures p). Some (struct_id t) = Some ''ACA-26-54''"
    if "getProgram (Some ''ACA'') = Some p" for p
    using that
    by (auto simp: getProgram_def getProgramIn_def find_or_first_def first_elem_def PROGRAMS_def)
  have d: "\<exists>p s. getProgram (Some ''ACA'') = Some p
         \<and> getStructure (Some ''ACA'') (Some ''ACA-26-54'') = Some s
         \<and> s \<in> set (structures p) \<and> struct_id s = ''ACA-26-54''"
    using catalog_lookup_total [of "Some ''ACA''" "Some ''ACA-26-54''"] m by auto
  from a b c d show ?thesis by blast
qed

subsection \<open>Type normalization\<close>

lemma count_docs_drop_uncategorised:
  "count_docs iv en (filter (\<lambda>d. normalizeDocType (doc_type d) \<noteq> None) ds) m = count_docs iv en ds m"
  by (induction ds arbitrary: m) (auto split: option.splits simp: Let_def)

lemma bucket_docs_members:
  assumes "bucket_docs iv en ds m key = Some arr" and "d \<in> set arr"
  shows "(d \<in> set ds \<and> (\<exists>k. normalizeDocType (doc_type d) = Some k \<and> is_enabled en k))
         \<or> (\<exists>arr0. m key = Some arr0 \<and> d \<in> set arr0)"
  using assms
proof (induction ds arbitrary: m)
  case Nil
  then show ?case by simp
next
  case (Cons x xs)
  show ?case
  proof (cases "pub x")
    case None
    then show ?thesis using Cons.IH [of m] Cons.prems by auto
  next
    case (Some p)
    note p = this
    show ?thesis
    proof (cases "normalizeDocType (doc_type x)")
      case None
      then show ?thesis using Cons.IH [of m] Cons.prems p by auto
    next
      case (Some k)
      show ?thesis
      proof (cases "is_enabled en k")
        case False
        then show ?thesis using Cons.IH [of m] Cons.prems p Some by auto
      next
        case True
        show ?thesis
        proof (cases "m (floori iv p)")
          case None
          then have "bucket_docs iv en xs (m(floori iv p \<mapsto> [x])) key = Some arr"
            using Cons.prems(1) p Some True by simp
          from Cons.IH [OF this Cons.prems(2)] show ?thesis
            using Some True by (auto split: if_splits)
        next
          case (Some arr0)
          then have "bucket_docs iv en xs (m(floori iv p \<mapsto> arr0 @ [x])) key = Some arr"
            using Cons.prems(1) p \<open>normalizeDocType (doc_type x) = Some k\<close> True by simp
          from Cons.IH [OF this Cons.prems(2)] show ?thesis
            using Some True \<open>normalizeDocType (doc_type x) = Some k\<close> by (auto split: if_splits)
        qed
      qed
    qed
  qed
qed

lemma set_insert_by: "set (insert_by cmp x ys) = insert x (set ys)"
  by (induction ys) auto

lemma set_sort_by: "set (sort_by cmp xs) = set xs"
  unfolding sort_by_def by (induction xs) (auto simp: set_insert_by)

lemma bucketDocs_members:
  assumes "d \<in> set (bucketDocs lc st)"
  shows "d \<in> set (docs st) \<and> (\<exists>k. normalizeDocType (doc_type d) = Some k \<and> is_enabled (enabledTypes st) k)"
proof -
  from assms obtain a where a: "active st = Some a"
    by (cases "active st") (auto simp: bucketDocs_def)
  define key where "key = floori (active_interval (zoomUnit st) (bucket st)) a"
  from assms a obtain arr where arr: "bucketMap st key = Some arr" "d \<in> set arr"
    by (cases "bucketMap st key") (auto simp: bucketDocs_def key_def set_sort_by)
  from bucket_docs_members [OF arr(1) [unfolded bucketMap_def] arr(2)]
  show ?thesis by simp
qed

text \<open>
  C7. The raw type strings PRORULE, PROPOSED_RULE and Proposed Rule all normalize to the
  category Proposed Rule. A string is given no category exactly when its upper-case form
  contains none of the six recognised words. Documents without a category do not count
  in any bucket of the series (removing them leaves the series unchanged), and none is
  in a list of the bucket map or in the drill-down list.
\<close>

theorem type_normalization:
  "normalizeDocType (Some ''PRORULE'') = Some PRORULE
   \<and> normalizeDocType (Some ''PROPOSED_RULE'') = Some PRORULE
   \<and> normalizeDocType (Some ''Proposed Rule'') = Some PRORULE
   \<and> (normalizeDocType (Some t) = None \<longleftrightarrow>
        \<not> (\<exists>p \<in> {''PRORULE'', ''PROPOSED'', ''RULE'', ''NOTICE'', ''PRESDOCU'', ''PRESIDENT''}.
             str_includes (toUpperCase t) p))
   \<and> series (st\<lparr>docs := filter (\<lambda>d. normalizeDocType (doc_type d) \<noteq> None) (docs st)\<rparr>) = series st
   \<and> (\<forall>key arr. bucketMap st key = Some arr \<longrightarrow>
         (\<forall>d \<in> set arr. normalizeDocType (doc_type d) \<noteq> None))
   \<and> (\<forall>d \<in> set (bucketDocs lc st). normalizeDocType (doc_type d) \<noteq> None)"
proof (intro conjI)
  show "normalizeDocType (Some ''PRORULE'') = Some PRORULE"
    by (simp add: normalizeDocType_def toUpperCase_def upper_char_def)
  show "normalizeDocType (Some ''PROPOSED_RULE'') = Some PRORULE"
    by (simp add: normalizeDocType_def toUpperCase_def upper_char_def)
  show "normalizeDocType (Some ''Proposed Rule'') = Some PRORULE"
    by (simp add: normalizeDocType_def toUpperCase_def upper_char_def)
  show "normalizeDocType (Some t) = None \<longleftrightarrow>
        \<not> (\<exists>p \<in> {''PRORULE'', ''PROPOSED'', ''RULE'', ''NOTICE'', ''PRESDOCU'', ''PRESIDENT''}.
             str_includes (toUpperCase t) p)"
    by (simp add: normalizeDocType_def Let_def)
  show "series (st\<lparr>docs := filter (\<lambda>d. normalizeDocType (doc_type d) \<noteq> None) (docs st)\<rparr>) = series st"
    by (simp add: series_def series_of_def count_docs_drop_uncategorised del: not_None_eq)
  show "\<forall>key arr. bucketMap st key = Some arr \<longrightarrow>
         (\<forall>d \<in> set arr. normalizeDocType (doc_type d) \<noteq> None)"
  proof (intro allI impI ballI)
    fix key arr d
    assume "bucketMap st key = Some arr" and "d \<in> set arr"
    from bucket_docs_members [OF this(1) [unfolded bucketMap_def] this(2)]
    show "normalizeDocType (doc_type d) \<noteq> None" by auto
  qed
  show "\<forall>d \<in> set (bucketDocs lc st). normalizeDocType (doc_type d) \<noteq> None"
    using bucketDocs_members by fastforce
qed

subsection \<open>The topic condition\<close>

text \<open>
  C8 (as amended). The query carries a topic condition exactly when the topic of the
  filter state is a non-empty string of lower-case letters, digits and hyphens; the
  condition then carries that topic. For any other topic the condition is left out.
\<close>

theorem topic_condition:
  "q_topic (baseParams opts) =
     (if topic (opt_filters opts) \<noteq> []
         \<and> set (topic (opt_filters opts)) \<subseteq> set ''abcdefghijklmnopqrstuvwxyz0123456789-''
      then Some (topic (opt_filters opts)) else None)"
proof -
  have "list_all topic_char t \<longleftrightarrow> set t \<subseteq> set ''abcdefghijklmnopqrstuvwxyz0123456789-''" for t
    unfolding list_all_iff topic_char_def by blast
  then show ?thesis
    by (simp add: baseParams_def topic_ok_def Let_def split: prod.splits)
qed

theorem topic_condition_witness:
  "q_topic (baseParams (ex_opts\<lparr>opt_filters := (opt_filters ex_opts)\<lparr>topic := ''food-assistance''\<rparr>\<rparr>))
     = Some ''food-assistance''
   \<and> q_topic (baseParams ex_opts) = None"
  using topic_condition [of "ex_opts\<lparr>opt_filters := (opt_filters ex_opts)\<lparr>topic := ''food-assistance''\<rparr>\<rparr>"]
    topic_condition [of ex_opts]
  by (simp add: ex_opts_def ex_filters_def)

theorem topic_condition_uppercase_counterexample:
  "spec_topic_token ''SNAP''
   \<and> q_topic (baseParams (ex_opts\<lparr>opt_filters := (opt_filters ex_opts)\<lparr>topic := ''SNAP''\<rparr>\<rparr>)) = None"
  by (simp add: spec_topic_token_def baseParams_def topic_ok_def topic_char_def Let_def
      ex_opts_def ex_filters_def split: prod.splits)

theorem type_normalization_witness:
  "with_pub ex_rule \<in> set (bucketDocs (\<lambda>a b. 0) ex_state)
   \<and> normalizeDocType (doc_type (with_pub ex_rule)) \<noteq> None
   \<and> with_pub ex_other \<in> set (docs ex_state)
   \<and> normalizeDocType (doc_type (with_pub ex_other)) = None
   \<and> with_pub ex_other \<notin> set (bucketDocs (\<lambda>a b. 0) ex_state)
   \<and> series (ex_state\<lparr>docs := filter (\<lambda>d. normalizeDocType (doc_type d) \<noteq> None) (docs ex_state)\<rparr>)
       = series ex_state"
proof -
  have m: "with_pub ex_rule \<in> set (bucketDocs (\<lambda>a b. 0) ex_state)"
    by code_simp
  have o: "with_pub ex_other \<in> set (docs ex_state)"
    by (simp add: ex_state_def)
  have n: "normalizeDocType (doc_type (with_pub ex_other)) = None"
    by (simp add: with_pub_def ex_other_def normalizeDocType_def toUpperCase_def upper_char_def)
  note t = type_normalization [of "''Correction''" ex_state "\<lambda>a b. 0"]
  from t m have "normalizeDocType (doc_type (with_pub ex_rule)) \<noteq> None"
    by blast
  moreover from t n have "with_pub ex_other \<notin> set (bucketDocs (\<lambda>a b. 0) ex_state)"
    by blast
  moreover from t have "series (ex_state\<lparr>docs := filter (\<lambda>d. normalizeDocType (doc_type d) \<noteq> None)
      (docs ex_state)\<rparr>) = series ex_state"
    by blast
  ultimately show ?thesis
    using m o n by blast
qed

subsection \<open>Deduplication\<close>

lemma docKey_with_pub: "docKey (with_pub d) = docKey d"
  by (simp add: docKey_def with_pub_def)

lemma push_new_invariant:
  assumes "\<And>d. key' (conv d) = key d"
    and "seen = key' ` set all" and "distinct (map key' all)"
  shows "snd (push_new key conv ds all seen) = key' ` set (fst (push_new key conv ds all seen))
         \<and> distinct (map key' (fst (push_new key conv ds all seen)))"
  using assms(2,3)
proof (induction ds arbitrary: all seen)
  case Nil
  then show ?case by simp
next
  case (Cons d ds)
  show ?case
  proof (cases "key d \<in> seen")
    case True
    then show ?thesis using Cons.IH [OF Cons.prems] by simp
  next
    case False
    have s: "insert (key d) seen = key' ` set (all @ [conv d])"
      using Cons.prems(1) assms(1) by auto
    have d: "distinct (map key' (all @ [conv d]))"
      using Cons.prems False assms(1) by auto
    show ?thesis using Cons.IH [OF s d] False by simp
  qed
qed

lemma fetch_pages_stop:
  "\<not> more_pages page totalPages \<Longrightarrow> fetch_pages F q page totalPages all seen w = (Inr all, w)"
  by (subst fetch_pages.simps) simp

lemma fetch_pages_rejected:
  "more_pages page totalPages \<Longrightarrow> F w (q\<lparr>q_page := page\<rparr>) = (Rejected m, w')
   \<Longrightarrow> fetch_pages F q page totalPages all seen w = (Inl (Error m), w')"
  by (subst fetch_pages.simps) simp

lemma fetch_pages_http_error:
  "more_pages page totalPages \<Longrightarrow> F w (q\<lparr>q_page := page\<rparr>) = (Response status body js, w')
   \<Longrightarrow> \<not> ok status
   \<Longrightarrow> fetch_pages F q page totalPages all seen w = (Inl (Error (fail_message status body)), w')"
  by (subst fetch_pages.simps) simp

lemma fetch_pages_bad_json:
  "more_pages page totalPages \<Longrightarrow> F w (q\<lparr>q_page := page\<rparr>) = (Response status body (Inl m), w')
   \<Longrightarrow> ok status
   \<Longrightarrow> fetch_pages F q page totalPages all seen w = (Inl (Error m), w')"
  by (subst fetch_pages.simps) simp

lemma fetch_pages_last:
  "more_pages page totalPages \<Longrightarrow> F w (q\<lparr>q_page := page\<rparr>) = (Response status body (Inr data), w')
   \<Longrightarrow> ok status \<Longrightarrow> length (page_results data) < 1000
   \<Longrightarrow> fetch_pages F q page totalPages all seen w
       = (Inr (fst (push_new docKey with_pub (page_results data) all seen)), w')"
  by (subst fetch_pages.simps) (simp add: Let_def)

lemma fetch_pages_next:
  "more_pages page totalPages \<Longrightarrow> F w (q\<lparr>q_page := page\<rparr>) = (Response status body (Inr data), w')
   \<Longrightarrow> ok status \<Longrightarrow> \<not> length (page_results data) < 1000
   \<Longrightarrow> fetch_pages F q page totalPages all seen w
       = fetch_pages F q (page + 1) (next_total data totalPages)
           (fst (push_new docKey with_pub (page_results data) all seen))
           (snd (push_new docKey with_pub (page_results data) all seen)) w'"
  by (subst fetch_pages.simps) (simp add: Let_def)

lemma fetch_pages_distinct:
  assumes "seen = docKey ` set all" and "distinct (map docKey all)"
    and "fst (fetch_pages F q page totalPages all seen w) = Inr out"
  shows "distinct (map docKey out)"
  using assms
proof (induction F q page totalPages all seen w rule: fetch_pages.induct)
  case (1 F q page totalPages all seen w)
  note inv = push_new_invariant [where key' = docKey and key = docKey and conv = with_pub,
      OF docKey_with_pub "1.prems"(1,2)]
  show ?case
  proof (cases "more_pages page totalPages")
    case False
    with "1.prems" show ?thesis by (simp add: fetch_pages_stop)
  next
    case True
    obtain r w' where r: "F w (q\<lparr>q_page := page\<rparr>) = (r, w')"
      by (cases "F w (q\<lparr>q_page := page\<rparr>)")
    show ?thesis
    proof (cases r)
      case (Rejected m)
      with "1.prems"(3) True r show ?thesis by (simp add: fetch_pages_rejected)
    next
      case (Response status body js)
      show ?thesis
      proof (cases "ok status")
        case False
        with "1.prems"(3) True r Response show ?thesis by (simp add: fetch_pages_http_error)
      next
        case okay: True
        show ?thesis
        proof (cases js)
          case (Inl m)
          with "1.prems"(3) True r Response okay show ?thesis by (simp add: fetch_pages_bad_json)
        next
          case (Inr data)
          define acc where "acc = push_new docKey with_pub (page_results data) all seen"
          have acc_inv: "snd acc = docKey ` set (fst acc)" "distinct (map docKey (fst acc))"
            using inv [of "page_results data"] by (simp_all add: acc_def)
          note resp = r [unfolded Response Inr]
          show ?thesis
          proof (cases "length (page_results data) < 1000")
            case short: True
            from "1.prems"(3) True resp okay short acc_inv
            show ?thesis by (simp add: fetch_pages_last acc_def)
          next
            case long: False
            have step: "fst (fetch_pages F q (page + 1) (next_total data totalPages)
                (fst acc) (snd acc) w') = Inr out"
              using "1.prems"(3) True resp okay long by (simp add: fetch_pages_next acc_def)
            have nn: "\<not> \<not> ok status" using okay by simp
            from "1.IH" [OF True r [symmetric] Response nn Inr refl acc_def refl long acc_inv step]
            show ?thesis .
          qed
        qed
      qed
    qed
  qed
qed

lemma fetchFR_distinct:
  "fst (fetchFR F opts w) = Inr out \<Longrightarrow> distinct (map docKey out)"
  unfolding fetchFR_def by (rule fetch_pages_distinct [of "{}" "[]"]) simp_all

lemma span_loop_distinct:
  assumes "seen = docKey ` set out0" and "distinct (map docKey out0)"
    and "fst (span_loop F opts s e edges out0 seen w) = Inr out"
  shows "distinct (map docKey out)"
  using assms
proof (induction edges arbitrary: out0 seen w)
  case Nil
  then show ?case by simp
next
  case (Cons a edges)
  define b where "b = (case edges of [] \<Rightarrow> offseti timeYear a 1 | b' # _ \<Rightarrow> b')"
  define sub where "sub = opts\<lparr>opt_start := max s a, opt_end := min e (offseti timeDay b (- 1))\<rparr>"
  obtain r w' where r: "fetchFR F sub w = (r, w')"
    by (cases "fetchFR F sub w")
  show ?case
  proof (cases r)
    case (Inl err)
    then have "fst (span_loop F opts s e (a # edges) out0 seen w) = Inl err"
      using r by (simp add: Let_def b_def sub_def)
    with Cons.prems(3) show ?thesis by simp
  next
    case (Inr batch)
    define acc where "acc = push_new docKey (\<lambda>d. d) batch out0 seen"
    have inv: "snd acc = docKey ` set (fst acc)" "distinct (map docKey (fst acc))"
      using push_new_invariant [where key' = docKey and key = docKey and conv = "\<lambda>d. d",
          OF _ Cons.prems(1,2), of batch]
      by (simp_all add: acc_def)
    have "span_loop F opts s e (a # edges) out0 seen w
        = span_loop F opts s e edges (fst acc) (snd acc) w'"
      using r Inr by (simp add: Let_def b_def sub_def acc_def)
    with Cons.prems(3) have "fst (span_loop F opts s e edges (fst acc) (snd acc) w') = Inr out"
      by simp
    from Cons.IH [OF inv this] show ?thesis .
  qed
qed

lemma fetchFRSpan_distinct:
  assumes "fst (fetchFRSpan F opts w) = Inr out"
  shows "distinct (map docKey out)"
proof -
  obtain s e where se: "normRange (opt_start opts) (opt_end opts) = (s, e)"
    by (cases "normRange (opt_start opts) (opt_end opts)")
  show ?thesis
  proof (cases "e - s < 1000 * 60 * 60 * 24 * 548")
    case True
    then have "fetchFRSpan F opts w = fetchFR F opts w"
      using se by (simp add: fetchFRSpan_def)
    with assms show ?thesis by (simp add: fetchFR_distinct)
  next
    case False
    then have "fetchFRSpan F opts w = span_loop F opts s e
        (iv_range timeYear (floori timeYear s) (offseti timeYear (floori timeYear e) 1)) [] {} w"
      using se by (simp add: fetchFRSpan_def)
    with assms show ?thesis
      using span_loop_distinct [of "{}" "[]"] by simp
  qed
qed

lemma identity_eq_imp_key_eq: "identity_of d = identity_of d' \<Longrightarrow> docKey d = docKey d'"
  by (auto simp: identity_of_def docKey_def split: if_splits)

lemma distinct_keys_imp_distinct_identities:
  "distinct (map docKey xs) \<Longrightarrow> distinct (map identity_of xs)"
proof -
  assume d: "distinct (map docKey xs)"
  then have "distinct xs" and "inj_on docKey (set xs)"
    by (simp_all add: distinct_map)
  then have "inj_on identity_of (set xs)"
    by (meson identity_eq_imp_key_eq inj_on_def)
  with \<open>distinct xs\<close> show ?thesis
    by (simp add: distinct_map)
qed

text \<open>
  C1. Whatever responses a fetch consumes, the list \<open>fetchFR\<close> returns has no two
  entries with the same identity key, and neither has the list \<open>fetchFRSpan\<close> returns,
  across its sub-ranges; the identity is the document number if present, else the
  composite of type and title.
\<close>

theorem fetch_output_unique_identity:
  "(fst (fetchFR F opts w) = Inr out \<longrightarrow>
      distinct (map docKey out) \<and> distinct (map identity_of out))
   \<and> (fst (fetchFRSpan F opts w) = Inr out \<longrightarrow>
      distinct (map docKey out) \<and> distinct (map identity_of out))"
  using fetchFR_distinct [of F opts w out] fetchFRSpan_distinct [of F opts w out]
    distinct_keys_imp_distinct_identities [of out]
  by blast

theorem fetch_output_unique_identity_witness:
  "fst (fetchFR scripted ex_opts [json_page [ex_rule, ex_rule, ex_notice, ex_notice] 1])
     = Inr [with_pub ex_rule, with_pub ex_notice]
   \<and> distinct (map identity_of [with_pub ex_rule, with_pub ex_notice])
   \<and> fst (fetchFRSpan scripted ex_span_opts
        [json_page [ex_rule, ex_notice] 1, json_page [ex_notice, ex_snap, ex_rule] 1])
     = Inr [with_pub ex_rule, with_pub ex_notice, with_pub ex_snap]
   \<and> distinct (map docKey [with_pub ex_rule, with_pub ex_notice, with_pub ex_snap])"
proof -
  have a: "fst (fetchFR scripted ex_opts [json_page [ex_rule, ex_rule, ex_notice, ex_notice] 1])
     = Inr [with_pub ex_rule, with_pub ex_notice]"
    by code_simp
  have b: "fst (fetchFRSpan scripted ex_span_opts
        [json_page [ex_rule, ex_notice] 1, json_page [ex_notice, ex_snap, ex_rule] 1])
     = Inr [with_pub ex_rule, with_pub ex_notice, with_pub ex_snap]"
    by code_simp
  from a b
    fetch_output_unique_identity [of scripted ex_opts
      "[json_page [ex_rule, ex_rule, ex_notice, ex_notice] 1]" "[with_pub ex_rule, with_pub ex_notice]"]
    fetch_output_unique_identity [of scripted ex_span_opts
      "[json_page [ex_rule, ex_notice] 1, json_page [ex_notice, ex_snap, ex_rule] 1]"
      "[with_pub ex_rule, with_pub ex_notice, with_pub ex_snap]"]
  show ?thesis by blast
qed

subsection \<open>HTTP failure\<close>








subsection \<open>Unreferenced expansion\<close>









subsection \<open>Nearest bucket on click\<close>

lemma bisect_left_bounds:
  assumes "lo \<le> hi" and "hi \<le> length a"
    and "\<forall>k < lo. a ! k < x" and "\<forall>k. hi \<le> k \<and> k < length a \<longrightarrow> x \<le> a ! k"
    and "sorted_wrt (<) a"
  shows "lo \<le> bisect_left a x lo hi \<and> bisect_left a x lo hi \<le> hi
         \<and> (\<forall>k < bisect_left a x lo hi. a ! k < x)
         \<and> (\<forall>k. bisect_left a x lo hi \<le> k \<and> k < length a \<longrightarrow> x \<le> a ! k)"
  using assms
proof (induction a x lo hi rule: bisect_left.induct)
  case (1 a x lo hi)
  define mid where "mid = (lo + hi) div 2"
  show ?case
  proof (cases "lo < hi")
    case False
    with "1.prems" have "lo = hi" by simp
    moreover have "bisect_left a x lo hi = lo"
      using False by (subst bisect_left.simps) simp
    ultimately show ?thesis using "1.prems" by simp
  next
    case True
    then have mid: "lo \<le> mid" "mid < hi" "mid < length a"
      using "1.prems"(2) by (simp_all add: mid_def)
    note nth = sorted_wrt_nth_less [OF "1.prems"(5)]
    show ?thesis
    proof (cases "a ! mid < x")
      case less: True
      have eq: "bisect_left a x lo hi = bisect_left a x (mid + 1) hi"
        using True less by (subst bisect_left.simps) (simp add: mid_def)
      have below: "\<forall>k < mid + 1. a ! k < x"
      proof (intro allI impI)
        fix k assume "k < mid + 1"
        then have "k = mid \<or> k < mid" by auto
        then show "a ! k < x"
          using less nth [of k mid] mid(3) by fastforce
      qed
      have "mid + 1 \<le> bisect_left a x (mid + 1) hi \<and> bisect_left a x (mid + 1) hi \<le> hi
         \<and> (\<forall>k < bisect_left a x (mid + 1) hi. a ! k < x)
         \<and> (\<forall>k. bisect_left a x (mid + 1) hi \<le> k \<and> k < length a \<longrightarrow> x \<le> a ! k)"
        using "1.IH"(1) [OF True less [unfolded mid_def]] mid "1.prems"(2,4,5) below
        by (simp add: mid_def)
      then show ?thesis using eq mid by auto
    next
      case geq: False
      have eq: "bisect_left a x lo hi = bisect_left a x lo mid"
        using True geq by (subst bisect_left.simps) (simp add: mid_def)
      have above: "\<forall>k. mid \<le> k \<and> k < length a \<longrightarrow> x \<le> a ! k"
      proof (intro allI impI)
        fix k assume k: "mid \<le> k \<and> k < length a"
        then have "k = mid \<or> mid < k" by auto
        then show "x \<le> a ! k"
          using geq nth [of mid k] k by fastforce
      qed
      have "lo \<le> bisect_left a x lo mid \<and> bisect_left a x lo mid \<le> mid
         \<and> (\<forall>k < bisect_left a x lo mid. a ! k < x)
         \<and> (\<forall>k. bisect_left a x lo mid \<le> k \<and> k < length a \<longrightarrow> x \<le> a ! k)"
        using "1.IH"(2) [OF True geq [unfolded mid_def]] mid "1.prems"(3,5) above
        by (simp add: mid_def)
      then show ?thesis using eq mid by auto
    qed
  qed
qed

lemma bisect_left_lower_bound:
  assumes "sorted_wrt (<) a"
  shows "bisect_left a x 0 (length a) \<le> length a
         \<and> (\<forall>k < bisect_left a x 0 (length a). a ! k < x)
         \<and> (\<forall>k. bisect_left a x 0 (length a) \<le> k \<and> k < length a \<longrightarrow> x \<le> a ! k)"
  using bisect_left_bounds [of 0 "length a" a x] assms by simp

lemma click_index_unfold:
  "click_index dates x0 =
     (let n = length dates; i0 = min (n - 1) (bisect_left dates x0 0 n)
      in if 0 < i0 \<and> i0 < n
         then (if \<bar>x0 - dates ! (i0 - 1)\<bar> < \<bar>x0 - dates ! i0\<bar> then i0 - 1 else i0)
         else i0)"
  unfolding click_index_def Let_def by (simp only: max_nat.left_neutral)

lemma click_index_nearest:
  assumes sorted: "sorted_wrt (<) dates" and ne: "dates \<noteq> []"
  shows "click_index dates x0 < length dates
         \<and> (\<forall>j < length dates. \<bar>x0 - dates ! click_index dates x0\<bar> \<le> \<bar>x0 - dates ! j\<bar>)
         \<and> (\<forall>j < length dates. \<bar>x0 - dates ! j\<bar> = \<bar>x0 - dates ! click_index dates x0\<bar>
               \<longrightarrow> j \<le> click_index dates x0)"
proof -
  define n where "n = length dates"
  define b where "b = bisect_left dates x0 0 n"
  have n0: "0 < n" using ne by (simp add: n_def)
  have bn: "b \<le> n" and below: "\<And>k. k < b \<Longrightarrow> dates ! k < x0"
    and above: "\<And>k. b \<le> k \<Longrightarrow> k < n \<Longrightarrow> x0 \<le> dates ! k"
    using bisect_left_lower_bound [OF sorted, of x0] by (simp_all add: b_def n_def)
  have mono: "\<And>i j. i < j \<Longrightarrow> j < n \<Longrightarrow> dates ! i < dates ! j"
    using sorted_wrt_nth_less [OF sorted] by (simp add: n_def)
  define i0 where "i0 = min (n - 1) b"
  define dL where "dL = \<bar>x0 - dates ! (i0 - 1)\<bar>"
  define dR where "dR = \<bar>x0 - dates ! i0\<bar>"
  have ci: "click_index dates x0 = (if 0 < i0 \<and> i0 < n then (if dL < dR then i0 - 1 else i0) else i0)"
    unfolding dL_def dR_def i0_def b_def n_def by (simp only: click_index_unfold Let_def)
  have i0n: "i0 < n" using n0 by (simp add: i0_def)
  have "b = 0 \<or> (b = n \<and> 0 < b) \<or> (0 < b \<and> b < n)"
    using bn by arith
  then consider (first) "b = 0" | (past) "b = n" "0 < b" | (mid) "0 < b" "b < n"
    by blast
  then show ?thesis
  proof cases
    case first
    then have i: "click_index dates x0 = 0"
      using ci by (simp add: i0_def)
    have ge: "\<And>j. j < n \<Longrightarrow> x0 \<le> dates ! j"
      using above first by simp
    have inc: "\<And>j. 0 < j \<Longrightarrow> j < n \<Longrightarrow> dates ! 0 < dates ! j"
      using mono by simp
    show ?thesis
      unfolding i n_def [symmetric]
    proof (intro conjI allI impI)
      show "0 < n" by (rule n0)
    next
      fix j assume j: "j < n"
      show "\<bar>x0 - dates ! 0\<bar> \<le> \<bar>x0 - dates ! j\<bar>"
        using ge [OF j] ge [OF n0] inc [of j] j by (cases "j = 0") auto
    next
      fix j assume j: "j < n" and eq: "\<bar>x0 - dates ! j\<bar> = \<bar>x0 - dates ! 0\<bar>"
      show "j \<le> 0"
        using ge [OF j] ge [OF n0] inc [of j] j eq by (cases "j = 0") auto
    qed
  next
    case past
    then have i0: "i0 = n - 1" by (simp add: i0_def)
    have lt: "\<And>j. j < n \<Longrightarrow> dates ! j < x0"
      using below past by simp
    have "\<not> (0 < i0 \<and> dL < dR)"
    proof
      assume h: "0 < i0 \<and> dL < dR"
      then have "dates ! (i0 - 1) < dates ! i0"
        using mono [of "i0 - 1" i0] i0n by simp
      moreover have "dates ! i0 < x0" using lt i0n by simp
      ultimately show False using h by (simp add: dL_def dR_def)
    qed
    then have i: "click_index dates x0 = n - 1"
      using ci i0 by auto
    show ?thesis
      unfolding i n_def [symmetric]
    proof (intro conjI allI impI)
      show "n - 1 < n" using n0 by simp
    next
      fix j assume j: "j < n"
      have "j = n - 1 \<or> j < n - 1" using j by auto
      then show "\<bar>x0 - dates ! (n - 1)\<bar> \<le> \<bar>x0 - dates ! j\<bar>"
        using lt [OF j] lt [of "n - 1"] mono [of j "n - 1"] n0 by fastforce
    next
      fix j assume j: "j < n"
      then show "j \<le> n - 1" by simp
    qed
  next
    case mid
    then have i0: "i0 = b" by (simp add: i0_def)
    have l: "dates ! (b - 1) < x0" using below [of "b - 1"] mid by simp
    have r: "x0 \<le> dates ! b" using above [of b] mid by simp
    have i: "click_index dates x0 = (if dL < dR then b - 1 else b)"
      using ci i0 mid by simp
    have left: "\<And>j. j < b \<Longrightarrow> \<bar>x0 - dates ! j\<bar> \<ge> dL \<and> (j < b - 1 \<longrightarrow> \<bar>x0 - dates ! j\<bar> > dL)"
    proof -
      fix j assume j: "j < b"
      have "j = b - 1 \<or> j < b - 1" using j by auto
      then show "\<bar>x0 - dates ! j\<bar> \<ge> dL \<and> (j < b - 1 \<longrightarrow> \<bar>x0 - dates ! j\<bar> > dL)"
        using l mono [of j "b - 1"] mid by (fastforce simp: dL_def i0)
    qed
    have right: "\<And>j. b \<le> j \<Longrightarrow> j < n \<Longrightarrow> \<bar>x0 - dates ! j\<bar> \<ge> dR \<and> (b < j \<longrightarrow> \<bar>x0 - dates ! j\<bar> > dR)"
    proof -
      fix j assume j: "b \<le> j" "j < n"
      have "j = b \<or> b < j" using j by auto
      then show "\<bar>x0 - dates ! j\<bar> \<ge> dR \<and> (b < j \<longrightarrow> \<bar>x0 - dates ! j\<bar> > dR)"
        using r mono [of b j] j by (fastforce simp: dR_def i0)
    qed
    show ?thesis
    proof (cases "dL < dR")
      case True
      then have ii: "click_index dates x0 = b - 1" using i by simp
      have dd: "\<bar>x0 - dates ! (b - 1)\<bar> = dL" by (simp add: dL_def i0)
      show ?thesis
        unfolding ii n_def [symmetric] dd
      proof (intro conjI allI impI)
        show "b - 1 < n" using mid by simp
      next
        fix j assume j: "j < n"
        show "dL \<le> \<bar>x0 - dates ! j\<bar>"
          using left [of j] right [of j] j True by (cases "j < b") auto
      next
        fix j assume j: "j < n" and eq: "\<bar>x0 - dates ! j\<bar> = dL"
        show "j \<le> b - 1"
          using left [of j] right [of j] j True eq by (cases "j < b") auto
      qed
    next
      case False
      then have ii: "click_index dates x0 = b" using i by simp
      have dd: "\<bar>x0 - dates ! b\<bar> = dR" by (simp add: dR_def i0)
      show ?thesis
        unfolding ii n_def [symmetric] dd
      proof (intro conjI allI impI)
        show "b < n" using mid by simp
      next
        fix j assume j: "j < n"
        show "dR \<le> \<bar>x0 - dates ! j\<bar>"
          using left [of j] right [of j] j False by (cases "j < b") auto
      next
        fix j assume j: "j < n" and eq: "\<bar>x0 - dates ! j\<bar> = dR"
        show "j \<le> b"
          using left [of j] right [of j] j False eq by (cases "j < b") auto
      qed
    qed
  qed
qed

subsection \<open>The calendar\<close>

lemma div_succ:
  fixes x n :: int
  assumes "0 < n"
  shows "(x + 1) div n = (if (x + 1) mod n = 0 then x div n + 1 else x div n)"
proof -
  define q where "q = x div n"
  define r where "r = x mod n"
  have x: "x = n * q + r" and r0: "0 \<le> r" and rn: "r < n"
    using assms by (simp_all add: q_def r_def)
  show ?thesis
  proof (cases "r + 1 = n")
    case True
    then have e: "x + 1 = n * (q + 1) + 0" using x by (simp add: algebra_simps)
    have "(x + 1) div n = q + 1"
      using e assms by (metis add.right_neutral nonzero_mult_div_cancel_left less_irrefl)
    moreover have "(x + 1) mod n = 0"
      using e by (metis add.right_neutral mod_mult_self1_is_0)
    ultimately show ?thesis by (simp add: q_def)
  next
    case False
    then have lt: "r + 1 < n" using rn by simp
    have e: "x + 1 = n * q + (r + 1)" using x by simp
    have d: "(x + 1) div n = q" using e lt r0 by (intro int_div_pos_eq) auto
    have m: "(x + 1) mod n = r + 1" using e lt r0 by (intro int_mod_pos_eq) auto
    show ?thesis using d m r0 by (simp add: q_def)
  qed
qed

lemma mod_shift: "(y - k * n) mod n = y mod (n::int)"
  by (metis mod_diff_right_eq mod_mult_self2_is_0 diff_zero)

lemma mod_400_100: "(y::int) mod 400 = 0 \<Longrightarrow> y mod 100 = 0"
  using mod_mod_cancel [of 100 400 y] by simp

lemma mod_100_4: "(y::int) mod 100 = 0 \<Longrightarrow> y mod 4 = 0"
  using mod_mod_cancel [of 4 100 y] by simp

lemma DayFromYear_Suc: "DayFromYear (y + 1) = DayFromYear y + days_in_year y"
proof -
  have m4: "(y - 1968) mod 4 = y mod 4" using mod_shift [of y 492 4] by simp
  have m100: "(y - 1900) mod 100 = y mod 100" using mod_shift [of y 19 100] by simp
  have m400: "(y - 1600) mod 400 = y mod 400" using mod_shift [of y 4 400] by simp
  have a: "(y + 1 - 1969) div 4 = (y - 1969) div 4 + (if y mod 4 = 0 then 1 else 0)"
    using div_succ [of 4 "y - 1969"] m4 by (simp add: algebra_simps)
  have b: "(y + 1 - 1901) div 100 = (y - 1901) div 100 + (if y mod 100 = 0 then 1 else 0)"
    using div_succ [of 100 "y - 1901"] m100 by (simp add: algebra_simps)
  have c: "(y + 1 - 1601) div 400 = (y - 1601) div 400 + (if y mod 400 = 0 then 1 else 0)"
    using div_succ [of 400 "y - 1601"] m400 by (simp add: algebra_simps)
  show ?thesis unfolding DayFromYear_def leap_year_def days_in_year_def a b c
    using mod_400_100 [of y] mod_100_4 [of y] by auto
qed

lemma days_in_year_ge: "365 \<le> days_in_year y"
  by (simp add: days_in_year_def)

lemma days_in_year_le: "days_in_year y \<le> 366"
  by (simp add: days_in_year_def)

lemma DayFromYear_less_Suc: "DayFromYear y < DayFromYear (y + 1)"
  using DayFromYear_Suc [of y] days_in_year_ge [of y] by linarith

lemma strict_mono_int:
  fixes f :: "int \<Rightarrow> int"
  assumes "\<And>i. f i < f (i + 1)" and "i < j"
  shows "f i < f j"
proof -
  have step: "f i < f (i + 1 + int n)" for n
  proof (induct n)
    case 0
    show ?case using assms(1) [of i] by simp
  next
    case (Suc n)
    have "f (i + 1 + int n) < f (i + 1 + int n + 1)" by (rule assms(1))
    with Suc show ?case by (simp add: algebra_simps)
  qed
  have "j = i + 1 + int (nat (j - i - 1))" using assms(2) by simp
  with step [of "nat (j - i - 1)"] show ?thesis by simp
qed

lemma mono_int:
  fixes f :: "int \<Rightarrow> int"
  assumes "\<And>i. f i < f (i + 1)" and "i \<le> j"
  shows "f i \<le> f j"
  using strict_mono_int [of f i j] assms by (cases "i = j") auto

lemma bracket_unique:
  fixes f :: "int \<Rightarrow> int"
  assumes step: "\<And>i. f i < f (i + 1)"
    and i: "f i \<le> t" "t < f (i + 1)" and j: "f j \<le> t" "t < f (j + 1)"
  shows "i = j"
proof (rule ccontr)
  assume "i \<noteq> j"
  then consider "i + 1 \<le> j" | "j + 1 \<le> i" by linarith
  then show False
  proof cases
    case 1
    from mono_int [of f "i + 1" j, OF step 1] i j show False by linarith
  next
    case 2
    from mono_int [of f "j + 1" i, OF step 2] i j show False by linarith
  qed
qed

lemma DayFromYear_1970: "DayFromYear 1970 = 0"
  by (simp add: DayFromYear_def)

lemma DayFromYear_upper: "1970 \<le> y \<Longrightarrow> DayFromYear y \<le> 366 * (y - 1970)"
proof (induction y rule: int_ge_induct)
  case base
  then show ?case by (simp add: DayFromYear_1970)
next
  case (step i)
  then show ?case
    using DayFromYear_Suc [of i] days_in_year_le [of i] by (simp add: algebra_simps)
qed

lemma DayFromYear_lower: "y \<le> 1970 \<Longrightarrow> DayFromYear y \<le> 365 * (y - 1970)"
proof (induction y rule: int_le_induct)
  case base
  then show ?case by (simp add: DayFromYear_1970)
next
  case (step i)
  then show ?case
    using DayFromYear_Suc [of "i - 1"] days_in_year_ge [of "i - 1"] by simp
qed

lemma mult_div_le: "0 < (n::int) \<Longrightarrow> n * (d div n) \<le> d"
  using mult_div_mod_eq [of n d] pos_mod_sign [of n d] by linarith

lemma year_lower_ok: "DayFromYear (year_lower d) \<le> d"
proof (cases "0 \<le> d")
  case True
  then have "0 \<le> d div 366" by simp
  then have "DayFromYear (1970 + d div 366) \<le> 366 * (d div 366)"
    using DayFromYear_upper [of "1970 + d div 366"] by simp
  also have "\<dots> \<le> d"
    by (rule mult_div_le) simp
  finally show ?thesis using True by (simp add: year_lower_def)
next
  case False
  then have "d div 365 \<le> 0" by simp
  then have "DayFromYear (1970 + d div 365) \<le> 365 * (d div 365)"
    using DayFromYear_lower [of "1970 + d div 365"] by simp
  also have "\<dots> \<le> d"
    by (rule mult_div_le) simp
  finally show ?thesis using False by (simp add: year_lower_def)
qed

lemma year_search_spec:
  "DayFromYear y \<le> d \<Longrightarrow>
     DayFromYear (year_search y d) \<le> d \<and> d < DayFromYear (year_search y d + 1)"
proof (induction y d rule: year_search.induct)
  case (1 y d)
  show ?case
  proof (cases "DayFromYear (y + 1) \<le> d")
    case True
    then have "year_search y d = year_search (y + 1) d"
      by (subst year_search.simps) simp
    with "1.IH" [OF True True] show ?thesis by simp
  next
    case False
    then have "year_search y d = y"
      by (subst year_search.simps) simp
    with False "1.prems" show ?thesis by simp
  qed
qed

lemma YearFromDay_spec:
  "DayFromYear (YearFromDay d) \<le> d \<and> d < DayFromYear (YearFromDay d + 1)"
  unfolding YearFromDay_def by (rule year_search_spec) (rule year_lower_ok)

lemma YearFromDay_unique:
  "DayFromYear y \<le> d \<Longrightarrow> d < DayFromYear (y + 1) \<Longrightarrow> YearFromDay d = y"
proof -
  assume a: "DayFromYear y \<le> d" and b: "d < DayFromYear (y + 1)"
  have c: "DayFromYear (YearFromDay d) \<le> d" and e: "d < DayFromYear (YearFromDay d + 1)"
    using YearFromDay_spec [of d] by simp_all
  show ?thesis
    by (rule bracket_unique [of DayFromYear, OF DayFromYear_less_Suc c e a b])
qed

lemma msPerDay_pos: "0 < msPerDay"
  by (simp add: msPerDay_def)

lemma Day_MakeDate: "0 \<le> tm \<Longrightarrow> tm < msPerDay \<Longrightarrow> Day (MakeDate d tm) = d"
  unfolding Day_def MakeDate_def using msPerDay_pos
  by simp

lemma TimeWithinDay_MakeDate:
  "0 \<le> tm \<Longrightarrow> tm < msPerDay \<Longrightarrow> TimeWithinDay (MakeDate d tm) = tm"
  unfolding TimeWithinDay_def MakeDate_def
  by simp

lemma TimeWithinDay_bounds: "0 \<le> TimeWithinDay t \<and> TimeWithinDay t < msPerDay"
  unfolding TimeWithinDay_def using msPerDay_pos by simp

lemma Day_decompose: "t = Day t * msPerDay + TimeWithinDay t"
  unfolding Day_def TimeWithinDay_def by simp

lemma Day_bounds: "Day t * msPerDay \<le> t \<and> t < (Day t + 1) * msPerDay"
  using Day_decompose [of t] TimeWithinDay_bounds [of t] by (simp add: algebra_simps)

lemma Day_mono: "s \<le> t \<Longrightarrow> Day s \<le> Day t"
  unfolding Day_def using msPerDay_pos by (simp add: zdiv_mono1)

lemma Day_times: "Day (d * msPerDay) = d"
  unfolding Day_def using msPerDay_pos by simp

lemma Day_ge_iff: "d * msPerDay \<le> t \<longleftrightarrow> d \<le> Day t"
proof
  assume "d * msPerDay \<le> t"
  from Day_mono [OF this] show "d \<le> Day t" by (simp add: Day_times)
next
  assume "d \<le> Day t"
  then have "d * msPerDay \<le> Day t * msPerDay"
    using msPerDay_pos by simp
  with Day_bounds [of t] show "d * msPerDay \<le> t" by linarith
qed

lemma Day_less_iff: "t < d * msPerDay \<longleftrightarrow> Day t < d"
  using Day_ge_iff [of d t] by linarith

lemma month_start_values:
  "month_start l 0 = 0" "month_start l 1 = 31"
  "month_start l 2 = 59 + (if l then 1 else 0)" "month_start l 3 = 90 + (if l then 1 else 0)"
  "month_start l 4 = 120 + (if l then 1 else 0)" "month_start l 5 = 151 + (if l then 1 else 0)"
  "month_start l 6 = 181 + (if l then 1 else 0)" "month_start l 7 = 212 + (if l then 1 else 0)"
  "month_start l 8 = 243 + (if l then 1 else 0)" "month_start l 9 = 273 + (if l then 1 else 0)"
  "month_start l 10 = 304 + (if l then 1 else 0)" "month_start l 11 = 334 + (if l then 1 else 0)"
  by (simp_all add: month_start_def)

lemma month_numbers: "[0..11] = [0, 1, 2, 3, 4, 5, 6, 7, 8, 9, 10, 11 :: int]"
  by code_simp

lemma month_cases:
  assumes "0 \<le> m" and "m < 12"
  shows "m \<in> set [0, 1, 2, 3, 4, 5, 6, 7, 8, 9, 10, 11 :: int]"
proof -
  have "m \<in> set [0..11]" using assms by simp
  then show ?thesis by (simp only: month_numbers)
qed

lemma DayWithinYear_bounds:
  "0 \<le> DayWithinYear t \<and> DayWithinYear t < days_in_year (YearFromTime t)"
  using YearFromDay_spec [of "Day t"] DayFromYear_Suc [of "YearFromTime t"]
  by (simp add: DayWithinYear_def YearFromTime_def)

lemma MonthFromTime_range: "0 \<le> MonthFromTime t \<and> MonthFromTime t < 12"
  by (simp add: MonthFromTime_def Let_def)

lemma MonthFromTime_bracket:
  "month_start (leap_year (YearFromTime t)) (MonthFromTime t) \<le> DayWithinYear t
   \<and> DayWithinYear t < month_end (leap_year (YearFromTime t)) (MonthFromTime t)"
  using DayWithinYear_bounds [of t]
  by (auto simp: MonthFromTime_def Let_def month_start_values month_end_def days_in_year_def)

lemma month_start_less_end: "0 \<le> m \<Longrightarrow> m < 12 \<Longrightarrow> month_start l m < month_end l m"
  using month_cases [of m] by (auto simp: month_start_values month_end_def)

lemma MakeDay_civil: "MakeDay (YearFromTime t) (MonthFromTime t) (DateFromTime t) = Day t"
proof -
  have "MonthFromTime t div 12 = 0" and "MonthFromTime t mod 12 = MonthFromTime t"
    using MonthFromTime_range [of t] by simp_all
  then show ?thesis
    by (simp add: MakeDay_def Let_def DateFromTime_def DayWithinYear_def)
qed

lemma MakeDay_date: "MakeDay y m dt = MakeDay y m 1 + (dt - 1)"
  by (simp add: MakeDay_def Let_def)

lemma setDate_eq: "setDate t dt = t + (dt - DateFromTime t) * msPerDay"
proof -
  have h: "MakeDay (YearFromTime t) (MonthFromTime t) dt = Day t + (dt - DateFromTime t)"
    using MakeDay_civil [of t] MakeDay_date [of "YearFromTime t" "MonthFromTime t" dt]
      MakeDay_date [of "YearFromTime t" "MonthFromTime t" "DateFromTime t"]
    by linarith
  have "setDate t dt = (Day t + (dt - DateFromTime t)) * msPerDay + TimeWithinDay t"
    by (simp add: setDate_def MakeDate_def h)
  also have "\<dots> = (Day t * msPerDay + TimeWithinDay t) + (dt - DateFromTime t) * msPerDay"
    by (simp add: algebra_simps)
  also have "\<dots> = t + (dt - DateFromTime t) * msPerDay"
    by (simp only: Day_decompose [symmetric])
  finally show ?thesis .
qed

lemma setHours0_eq: "setHours0 t = Day t * msPerDay"
  by (simp add: setHours0_def MakeDate_def)

subsection \<open>The four intervals\<close>

lemma Day_shift: "Day (t + k * msPerDay) = Day t + k"
  unfolding Day_def using msPerDay_pos by simp

lemma TimeWithinDay_times: "TimeWithinDay (d * msPerDay) = 0"
  by (simp add: TimeWithinDay_def)

lemma interval_spec_day: "interval_spec timeDay day_index day_bound"
  unfolding interval_spec_def
proof (intro conjI allI)
  fix i t j :: int
  show "day_bound i < day_bound (i + 1)"
    using msPerDay_pos by (simp add: day_bound_def algebra_simps)
  show "day_bound (day_index t) \<le> t" and "t < day_bound (day_index t + 1)"
    using Day_bounds [of t] by (simp_all add: day_bound_def day_index_def)
  show "floori timeDay t = day_bound (day_index t)"
    by (simp add: timeDay_def setHours0_eq day_bound_def day_index_def)
  show "offseti timeDay (day_bound i) 1 = day_bound (i + 1)"
    by (simp add: timeDay_def setDate_eq day_bound_def algebra_simps)
  show "TimeWithinDay (day_bound i) = 0"
    by (simp add: day_bound_def TimeWithinDay_times)
  have "(day_bound j - day_bound i) div msPerDay = (j - i) * msPerDay div msPerDay"
    by (simp add: day_bound_def algebra_simps)
  then show "count timeDay (day_bound i) (day_bound j) = j - i"
    using msPerDay_pos by (simp add: timeDay_def)
qed

lemma WeekDay_range: "0 \<le> WeekDay t \<and> WeekDay t < 7"
  by (simp add: WeekDay_def)

lemma week_arith:
  fixes d :: int
  shows "d - (d + 4) mod 7 = 7 * ((d + 4) div 7) - 4"
    and "7 * ((d + 4) div 7) - 4 \<le> d"
    and "d + 1 \<le> 7 * ((d + 4) div 7 + 1) - 4"
proof -
  define q where "q = (d + 4) div 7"
  define r where "r = (d + 4) mod 7"
  have e: "d + 4 = 7 * q + r" and r0: "0 \<le> r" and r7: "r < 7"
    by (simp_all add: q_def r_def)
  show "d - (d + 4) mod 7 = 7 * ((d + 4) div 7) - 4"
    unfolding q_def [symmetric] r_def [symmetric] using e by linarith
  show "7 * ((d + 4) div 7) - 4 \<le> d"
    unfolding q_def [symmetric] using e r0 by linarith
  have "7 * (q + 1) = 7 * q + 7" by simp
  then show "d + 1 \<le> 7 * ((d + 4) div 7 + 1) - 4"
    unfolding q_def [symmetric] using e r7 by linarith
qed

lemma interval_spec_week: "interval_spec timeWeek week_index week_bound"
  unfolding interval_spec_def
proof (intro conjI allI)
  fix i t j :: int
  show "week_bound i < week_bound (i + 1)"
    using msPerDay_pos by (simp add: week_bound_def algebra_simps)
  have w: "(WeekDay t + 7) mod 7 = (Day t + 4) mod 7"
    by (simp add: WeekDay_def)
  have lo: "7 * ((Day t + 4) div 7) - 4 \<le> Day t"
    by (rule week_arith(2))
  have hi: "Day t + 1 \<le> 7 * ((Day t + 4) div 7 + 1) - 4"
    by (rule week_arith(3))
  show "week_bound (week_index t) \<le> t"
    using lo Day_ge_iff [of "7 * ((Day t + 4) div 7) - 4" t]
    by (simp add: week_bound_def week_index_def)
  show "t < week_bound (week_index t + 1)"
    using hi Day_less_iff [of t "7 * ((Day t + 4) div 7 + 1) - 4"]
    by (simp add: week_bound_def week_index_def)
  have "setDate t (DateFromTime t - (WeekDay t + 7) mod 7) = t + (- ((Day t + 4) mod 7)) * msPerDay"
    unfolding setDate_eq w by simp
  then have "Day (setDate t (DateFromTime t - (WeekDay t + 7) mod 7)) = Day t - (Day t + 4) mod 7"
    by (simp only: Day_shift)
  then show "floori timeWeek t = week_bound (week_index t)"
    by (simp add: timeWeek_def setHours0_eq week_bound_def week_index_def week_arith(1))
  show "offseti timeWeek (week_bound i) 1 = week_bound (i + 1)"
    by (simp add: timeWeek_def setDate_eq week_bound_def algebra_simps)
  show "TimeWithinDay (week_bound i) = 0"
    by (simp add: week_bound_def TimeWithinDay_times)
  have "week_bound j - week_bound i = (j - i) * (7 * msPerDay)"
    by (simp add: week_bound_def algebra_simps)
  then show "count timeWeek (week_bound i) (week_bound j) = j - i"
    using msPerDay_pos by (simp add: timeWeek_def)
qed

lemma YearFromTime_year_bound: "YearFromTime (year_bound y) = y"
  unfolding YearFromTime_def year_bound_def Day_times
  by (rule YearFromDay_unique) (simp_all add: DayFromYear_less_Suc)

lemma DayWithinYear_year_bound: "DayWithinYear (year_bound y) = 0"
  using YearFromTime_year_bound [of y] by (simp add: DayWithinYear_def year_bound_def Day_times)

lemma MonthFromTime_year_bound: "MonthFromTime (year_bound y) = 0"
  by (simp add: MonthFromTime_def Let_def DayWithinYear_year_bound month_start_values)

lemma DateFromTime_year_bound: "DateFromTime (year_bound y) = 1"
  by (simp add: DateFromTime_def DayWithinYear_year_bound MonthFromTime_year_bound
      month_start_values)

lemma MakeDay_january: "MakeDay y 0 1 = DayFromYear y"
  by (simp add: MakeDay_def Let_def month_start_values)

lemma interval_spec_year: "interval_spec timeYear year_index year_bound"
  unfolding interval_spec_def
proof (intro conjI allI)
  fix i t j :: int
  show "year_bound i < year_bound (i + 1)"
    using DayFromYear_less_Suc [of i] msPerDay_pos by (simp add: year_bound_def)
  have spec: "DayFromYear (YearFromTime t) \<le> Day t" "Day t < DayFromYear (YearFromTime t + 1)"
    using YearFromDay_spec [of "Day t"] by (simp_all add: YearFromTime_def)
  show "year_bound (year_index t) \<le> t"
    using spec(1) Day_ge_iff [of "DayFromYear (YearFromTime t)" t]
    by (simp add: year_bound_def year_index_def)
  show "t < year_bound (year_index t + 1)"
    using spec(2) Day_less_iff [of t "DayFromYear (YearFromTime t + 1)"]
    by (simp add: year_bound_def year_index_def)
  show "floori timeYear t = year_bound (year_index t)"
    using TimeWithinDay_bounds [of t]
    by (simp add: timeYear_def setHours0_eq MakeDay_january Day_MakeDate year_bound_def
        year_index_def)
  show "offseti timeYear (year_bound i) 1 = year_bound (i + 1)"
    by (simp add: timeYear_def setFullYear_def YearFromTime_year_bound MonthFromTime_year_bound
        DateFromTime_year_bound MakeDay_january)
      (simp add: year_bound_def TimeWithinDay_times MakeDate_def)
  show "TimeWithinDay (year_bound i) = 0"
    by (simp add: year_bound_def TimeWithinDay_times)
  show "count timeYear (year_bound i) (year_bound j) = j - i"
    by (simp add: timeYear_def YearFromTime_year_bound)
qed

lemma divmod_succ:
  fixes x n :: int
  assumes "0 < n"
  shows "(x + 1) div n = (if x mod n = n - 1 then x div n + 1 else x div n)"
    and "(x + 1) mod n = (if x mod n = n - 1 then 0 else x mod n + 1)"
proof -
  define q where "q = x div n"
  define r where "r = x mod n"
  have x: "x = n * q + r" and r0: "0 \<le> r" and rn: "r < n"
    using assms by (simp_all add: q_def r_def)
  have "(x + 1) div n = (if r = n - 1 then q + 1 else q)
      \<and> (x + 1) mod n = (if r = n - 1 then 0 else r + 1)"
  proof (cases "r = n - 1")
    case True
    then have e: "x + 1 = n * (q + 1) + 0" using x by (simp add: algebra_simps)
    have "(x + 1) div n = q + 1"
      using e assms by (intro int_div_pos_eq [where r = 0]) auto
    moreover have "(x + 1) mod n = 0"
      using e assms by (intro int_mod_pos_eq [where q = "q + 1"]) auto
    ultimately show ?thesis using True by simp
  next
    case False
    then have lt: "r + 1 < n" using rn by simp
    have e: "x + 1 = n * q + (r + 1)" using x by simp
    have "(x + 1) div n = q" using e lt r0 by (intro int_div_pos_eq) auto
    moreover have "(x + 1) mod n = r + 1" using e lt r0 by (intro int_mod_pos_eq) auto
    ultimately show ?thesis using False by simp
  qed
  then show "(x + 1) div n = (if x mod n = n - 1 then x div n + 1 else x div n)"
    and "(x + 1) mod n = (if x mod n = n - 1 then 0 else x mod n + 1)"
    by (simp_all add: q_def r_def)
qed

lemma divmod_12:
  fixes y m :: int
  assumes "0 \<le> m" and "m < 12"
  shows "(12 * y + m) div 12 = y" and "(12 * y + m) mod 12 = m"
proof -
  show "(12 * y + m) div 12 = y"
    using assms by (intro int_div_pos_eq [where r = m]) auto
  show "(12 * y + m) mod 12 = m"
    using assms by (intro int_mod_pos_eq [where q = y]) auto
qed

lemma month_day_eq:
  "month_day i = DayFromYear (i div 12) + month_start (leap_year (i div 12)) (i mod 12)"
  by (simp add: month_day_def MakeDay_def Let_def)

lemma month_end_december: "DayFromYear y + month_end (leap_year y) 11 = DayFromYear (y + 1)"
  by (simp add: month_end_def DayFromYear_Suc days_in_year_def)

lemma month_day_Suc:
  "month_day (i + 1) = DayFromYear (i div 12) + month_end (leap_year (i div 12)) (i mod 12)"
proof (cases "i mod 12 = 11")
  case True
  then have "(i + 1) div 12 = i div 12 + 1" and "(i + 1) mod 12 = 0"
    using divmod_succ [of 12 i] by simp_all
  then have "month_day (i + 1) = DayFromYear (i div 12 + 1)"
    by (simp add: month_day_eq month_start_values)
  then show ?thesis
    using True month_end_december [of "i div 12"] by simp
next
  case False
  then have "(i + 1) div 12 = i div 12" and "(i + 1) mod 12 = i mod 12 + 1"
    using divmod_succ [of 12 i] by simp_all
  then show ?thesis
    using False by (simp add: month_day_eq month_end_def)
qed

lemma month_day_less_Suc: "month_day i < month_day (i + 1)"
  using month_start_less_end [of "i mod 12" "leap_year (i div 12)"]
  by (simp add: month_day_eq [of i] month_day_Suc)

lemma month_index_divmod:
  "month_index t div 12 = YearFromTime t" "month_index t mod 12 = MonthFromTime t"
  using divmod_12 [of "MonthFromTime t" "YearFromTime t"] MonthFromTime_range [of t]
  by (simp_all add: month_index_def)

lemma month_day_bracket:
  "month_day (month_index t) \<le> Day t \<and> Day t < month_day (month_index t + 1)"
  using MonthFromTime_bracket [of t]
  by (simp add: month_day_eq [of "month_index t"] month_day_Suc month_index_divmod
      DayWithinYear_def)

lemma month_bound_bracket:
  "month_bound (month_index t) \<le> t \<and> t < month_bound (month_index t + 1)"
  using month_day_bracket [of t] Day_ge_iff [of "month_day (month_index t)" t]
    Day_less_iff [of t "month_day (month_index t + 1)"]
  by (simp add: month_bound_def)

lemma month_bound_less_Suc: "month_bound i < month_bound (i + 1)"
  using month_day_less_Suc [of i] msPerDay_pos by (simp add: month_bound_def)

lemma month_index_bound: "month_index (month_bound i) = i"
proof -
  have a: "month_bound (month_index (month_bound i)) \<le> month_bound i"
    and b: "month_bound i < month_bound (month_index (month_bound i) + 1)"
    using month_bound_bracket [of "month_bound i"] by simp_all
  have c: "month_bound i \<le> month_bound i" by simp
  show ?thesis
    by (rule bracket_unique [of month_bound, OF month_bound_less_Suc a b c month_bound_less_Suc])
qed

lemma fields_month_bound:
  "YearFromTime (month_bound i) = i div 12" "MonthFromTime (month_bound i) = i mod 12"
  "DateFromTime (month_bound i) = 1" "TimeWithinDay (month_bound i) = 0"
proof -
  show y: "YearFromTime (month_bound i) = i div 12"
    using month_index_divmod(1) [of "month_bound i"] by (simp add: month_index_bound)
  show m: "MonthFromTime (month_bound i) = i mod 12"
    using month_index_divmod(2) [of "month_bound i"] by (simp add: month_index_bound)
  have "Day (month_bound i) = month_day i"
    by (simp add: month_bound_def Day_times)
  then show "DateFromTime (month_bound i) = 1"
    by (simp add: DateFromTime_def DayWithinYear_def y m month_day_eq)
  show "TimeWithinDay (month_bound i) = 0"
    by (simp add: month_bound_def TimeWithinDay_times)
qed

lemma MakeDay_next_month: "MakeDay (i div 12) (i mod 12 + 1) 1 = month_day (i + 1)"
proof (cases "i mod 12 = 11")
  case True
  then have "(i + 1) div 12 = i div 12 + 1" and "(i + 1) mod 12 = 0"
    using divmod_succ [of 12 i] by simp_all
  with True show ?thesis
    by (simp add: month_day_def MakeDay_def Let_def)
next
  case False
  then have d: "(i + 1) div 12 = i div 12" and m: "(i + 1) mod 12 = i mod 12 + 1"
    using divmod_succ [of 12 i] by simp_all
  have "0 \<le> i mod 12 + 1" and "i mod 12 + 1 < 12"
    using False pos_mod_bound [of 12 i] pos_mod_sign [of 12 i] by simp_all
  then have "(i mod 12 + 1) div 12 = 0" and "(i mod 12 + 1) mod 12 = i mod 12 + 1"
    by simp_all
  then show ?thesis
    using d m by (simp add: month_day_def MakeDay_def Let_def)
qed

lemma interval_spec_month: "interval_spec timeMonth month_index month_bound"
  unfolding interval_spec_def
proof (intro conjI allI)
  fix i t j :: int
  show "month_bound i < month_bound (i + 1)"
    by (rule month_bound_less_Suc)
  show "month_bound (month_index t) \<le> t" and "t < month_bound (month_index t + 1)"
    using month_bound_bracket [of t] by simp_all
  have "setDate t 1 = t + (1 - DateFromTime t) * msPerDay"
    by (rule setDate_eq)
  then have "Day (setDate t 1) = Day t + (1 - DateFromTime t)"
    by (simp only: Day_shift)
  also have "\<dots> = month_day (month_index t)"
    by (simp add: DateFromTime_def DayWithinYear_def month_day_eq month_index_divmod)
  finally show "floori timeMonth t = month_bound (month_index t)"
    by (simp add: timeMonth_def setHours0_eq month_bound_def)
  show "offseti timeMonth (month_bound i) 1 = month_bound (i + 1)"
    by (simp add: timeMonth_def setMonth_def fields_month_bound MakeDay_next_month MakeDate_def)
      (simp add: month_bound_def)
  show "TimeWithinDay (month_bound i) = 0"
    by (rule fields_month_bound(4))
  have aux: "d - b + (c - a) * 12 = (12 * c + d) - (12 * a + b)" for a b c d :: int
    by (simp add: algebra_simps)
  have "j mod 12 - i mod 12 + (j div 12 - i div 12) * 12 = j - i"
    using aux [of "j mod 12" "i mod 12" "j div 12" "i div 12"] by (simp only: mult_div_mod_eq)
  then show "count timeMonth (month_bound i) (month_bound j) = j - i"
    by (simp add: timeMonth_def fields_month_bound)
qed

lemma tickCfg_cases:
  "tickCfg u = timeDay \<or> tickCfg u = timeWeek \<or> tickCfg u = timeMonth \<or> tickCfg u = timeYear"
  by (simp add: tickCfg_def Let_def)

lemma active_interval_spec:
  "\<exists>idx bnd. interval_spec (active_interval zoom agg) idx bnd"
proof -
  have d: "\<exists>idx bnd. interval_spec timeDay idx bnd"
    using interval_spec_day by blast
  have w: "\<exists>idx bnd. interval_spec timeWeek idx bnd"
    using interval_spec_week by blast
  have m: "\<exists>idx bnd. interval_spec timeMonth idx bnd"
    using interval_spec_month by blast
  have y: "\<exists>idx bnd. interval_spec timeYear idx bnd"
    using interval_spec_year by blast
  have "\<exists>idx bnd. interval_spec (tickCfg zoom) idx bnd"
    using tickCfg_cases [of zoom] d w m y by (elim disjE) simp_all
  then show ?thesis
    using d by (simp add: active_interval_def)
qed

subsection \<open>Bins of the series\<close>

lemma spec_step: "interval_spec iv idx bnd \<Longrightarrow> bnd i < bnd (i + 1)"
  by (simp add: interval_spec_def)

lemma spec_bracket: "interval_spec iv idx bnd \<Longrightarrow> bnd (idx t) \<le> t \<and> t < bnd (idx t + 1)"
  by (simp add: interval_spec_def)

lemma spec_floor: "interval_spec iv idx bnd \<Longrightarrow> floori iv t = bnd (idx t)"
  by (simp add: interval_spec_def)

lemma spec_offset: "interval_spec iv idx bnd \<Longrightarrow> offseti iv (bnd i) 1 = bnd (i + 1)"
  by (simp add: interval_spec_def)

lemma spec_midnight: "interval_spec iv idx bnd \<Longrightarrow> TimeWithinDay (bnd i) = 0"
  by (simp add: interval_spec_def)

lemma spec_count: "interval_spec iv idx bnd \<Longrightarrow> count iv (bnd i) (bnd j) = j - i"
  by (simp add: interval_spec_def)

lemma spec_idx_unique:
  assumes "interval_spec iv idx bnd" and "bnd k \<le> t" and "t < bnd (k + 1)"
  shows "idx t = k"
proof -
  have a: "bnd (idx t) \<le> t" and b: "t < bnd (idx t + 1)"
    using spec_bracket [OF assms(1), of t] by simp_all
  show ?thesis
    by (rule bracket_unique [of bnd, OF spec_step [OF assms(1)] a b assms(2,3)])
qed

lemma spec_idx_bnd: "interval_spec iv idx bnd \<Longrightarrow> idx (bnd i) = i"
  using spec_idx_unique [of iv idx bnd i "bnd i"] spec_step [of iv idx bnd i] by simp

lemma spec_floor_bnd: "interval_spec iv idx bnd \<Longrightarrow> floori iv (bnd i) = bnd i"
  by (simp add: spec_floor spec_idx_bnd)

lemma spec_bnd_less_iff:
  assumes "interval_spec iv idx bnd"
  shows "bnd i < bnd j \<longleftrightarrow> i < j"
proof
  assume "i < j"
  then show "bnd i < bnd j"
    by (rule strict_mono_int [of bnd, OF spec_step [OF assms]])
next
  assume l: "bnd i < bnd j"
  show "i < j"
  proof (rule ccontr)
    assume "\<not> i < j"
    then have "j \<le> i" by simp
    from mono_int [of bnd, OF spec_step [OF assms] this] l show False by simp
  qed
qed

lemma spec_bnd_le_iff:
  assumes "interval_spec iv idx bnd"
  shows "bnd i \<le> bnd j \<longleftrightarrow> i \<le> j"
  using spec_bnd_less_iff [OF assms, of j i] by linarith

lemma spec_idx_mono:
  assumes "interval_spec iv idx bnd" and "s \<le> e"
  shows "idx s \<le> idx e"
proof (rule ccontr)
  assume "\<not> idx s \<le> idx e"
  then have "idx e + 1 \<le> idx s" by simp
  then have "bnd (idx e + 1) \<le> bnd (idx s)"
    by (simp add: spec_bnd_le_iff [OF assms(1)])
  with spec_bracket [OF assms(1), of s] spec_bracket [OF assms(1), of e] assms(2)
  show False by linarith
qed

lemma spec_idx_pred:
  assumes "interval_spec iv idx bnd"
  shows "idx (bnd i - 1) = i - 1"
proof (rule spec_idx_unique [OF assms])
  show "bnd (i - 1) \<le> bnd i - 1"
    using spec_step [OF assms, of "i - 1"] by simp
  show "bnd i - 1 < bnd (i - 1 + 1)"
    by simp
qed

lemma spec_ceil_bnd:
  assumes "interval_spec iv idx bnd"
  shows "iv_ceil iv (bnd i) = bnd i"
  by (simp add: iv_ceil_def spec_floor [OF assms] spec_idx_pred [OF assms]
      spec_offset [OF assms] spec_idx_bnd [OF assms])

lemma spec_idx_day_floor:
  assumes "interval_spec iv idx bnd"
  shows "idx (Day t * msPerDay) = idx t"
proof (rule spec_idx_unique [OF assms])
  have "bnd (idx t) = Day (bnd (idx t)) * msPerDay"
    using Day_decompose [of "bnd (idx t)"] spec_midnight [OF assms, of "idx t"] by simp
  moreover have "Day (bnd (idx t)) \<le> Day t"
    using spec_bracket [OF assms, of t] by (simp add: Day_mono)
  ultimately show "bnd (idx t) \<le> Day t * msPerDay"
    using msPerDay_pos by (metis mult_right_mono less_imp_le)
  show "Day t * msPerDay < bnd (idx t + 1)"
    using spec_bracket [OF assms, of t] Day_bounds [of t] by linarith
qed

lemma range_loop_spec:
  assumes "interval_spec iv idx bnd"
  shows "nat (j - i) = n \<Longrightarrow> i \<le> j \<Longrightarrow> range_loop iv (bnd i) (bnd (j + 1)) = map bnd [i..j]"
proof (induction n arbitrary: i)
  case 0
  then have ij: "i = j" by simp
  have "range_loop iv (bnd j) (bnd (j + 1)) = [bnd j]"
    by (subst range_loop.simps) (simp add: spec_offset [OF assms] spec_floor_bnd [OF assms])
  then show ?case using ij by simp
next
  case (Suc n)
  then have lt: "i < j" and n: "nat (j - (i + 1)) = n" and le: "i + 1 \<le> j"
    by simp_all
  have "range_loop iv (bnd i) (bnd (j + 1)) = bnd i # range_loop iv (bnd (i + 1)) (bnd (j + 1))"
    using lt
    by (subst range_loop.simps)
      (simp add: spec_offset [OF assms] spec_floor_bnd [OF assms] spec_step [OF assms]
        spec_bnd_less_iff [OF assms])
  also have "\<dots> = bnd i # map bnd [i + 1..j]"
    using Suc.IH [OF n le] by simp
  also have "\<dots> = map bnd [i..j]"
    using lt by (simp add: upto_rec1 [of i j])
  finally show ?case .
qed

lemma iv_range_spec:
  assumes "interval_spec iv idx bnd" and "i \<le> j"
  shows "iv_range iv (bnd i) (bnd (j + 1)) = map bnd [i..j]"
proof -
  have "bnd i < bnd (j + 1)"
    using assms(2) by (simp add: spec_bnd_less_iff [OF assms(1)])
  then show ?thesis
    using range_loop_spec [OF assms(1) refl assms(2)]
    by (simp add: iv_range_def spec_ceil_bnd [OF assms(1)])
qed

lemma floori_timeDay: "floori timeDay t = Day t * msPerDay"
  by (simp add: timeDay_def setHours0_eq)

lemma bins_of_spec:
  assumes "interval_spec iv idx bnd" and "normRange start end = (s, e)"
  shows "bins_of iv start end = map bnd [idx s..idx e]" and "idx s \<le> idx e"
proof -
  have se: "s \<le> e"
    using assms(2) by (auto simp: normRange_def split: if_splits)
  show le: "idx s \<le> idx e"
    using se by (rule spec_idx_mono [OF assms(1)])
  have r: "iv_range iv (bnd (idx s)) (bnd (idx e + 1)) = map bnd [idx s..idx e]"
    by (rule iv_range_spec [OF assms(1) le])
  have ne: "map bnd [idx s..idx e] \<noteq> []"
    using le by simp
  show "bins_of iv start end = map bnd [idx s..idx e]"
    using r ne
    by (simp add: bins_of_def assms(2) Let_def floori_timeDay spec_floor [OF assms(1)]
        spec_idx_day_floor [OF assms(1)] spec_offset [OF assms(1)])
qed

subsection \<open>Series totality\<close>

lemma date_mk_row: "date (mk_row dt c) = dt"
  by (simp add: mk_row_def)

lemma series_of_dates: "map date (series_of ds start end iv en) = bins_of iv start end"
  by (simp add: series_of_def Let_def comp_def date_mk_row)

lemma count_docs_untouched:
  "(\<forall>d \<in> set ds. \<forall>p k. pub d = Some p \<longrightarrow> normalizeDocType (doc_type d) = Some k \<longrightarrow>
        is_enabled en k \<longrightarrow> fmtDate (floori iv p) \<noteq> key)
   \<Longrightarrow> count_docs iv en ds m key = m key"
proof (induction ds arbitrary: m)
  case Nil
  then show ?case by simp
next
  case (Cons d ds)
  then have rest: "\<forall>d \<in> set ds. \<forall>p k. pub d = Some p \<longrightarrow> normalizeDocType (doc_type d) = Some k \<longrightarrow>
        is_enabled en k \<longrightarrow> fmtDate (floori iv p) \<noteq> key"
    by simp
  show ?case
  proof (cases "pub d")
    case None
    then show ?thesis using Cons.IH [OF rest] by simp
  next
    case (Some p)
    show ?thesis
    proof (cases "normalizeDocType (doc_type d)")
      case None
      then show ?thesis using Some Cons.IH [OF rest] by simp
    next
      case k: (Some k)
      show ?thesis
      proof (cases "is_enabled en k")
        case False
        then show ?thesis using Some k Cons.IH [OF rest] by simp
      next
        case True
        then have "fmtDate (floori iv p) \<noteq> key"
          using Cons.prems Some k by simp
        then show ?thesis
          using Some k True Cons.IH [OF rest] by (simp add: Let_def)
      qed
    qed
  qed
qed

lemma map_of_init: "dt \<in> set bins \<Longrightarrow> map_of (map (\<lambda>dt. (f dt, c)) bins) (f dt) = Some c"
  by (induction bins) auto

lemma series_of_row:
  assumes "r \<in> set (series_of ds start end iv en)"
  shows "date r \<in> set (bins_of iv start end)
         \<and> tot r = pr r + ru r + no r + pd r
         \<and> ((\<forall>d \<in> set ds. \<forall>p k. pub d = Some p \<longrightarrow> normalizeDocType (doc_type d) = Some k \<longrightarrow>
                is_enabled en k \<longrightarrow> fmtDate (floori iv p) \<noteq> fmtDate (date r))
             \<longrightarrow> pr r = 0 \<and> ru r = 0 \<and> no r = 0 \<and> pd r = 0 \<and> tot r = 0)"
proof -
  define bins where "bins = bins_of iv start end"
  define m where "m = count_docs iv en ds (map_of (map (\<lambda>dt. (fmtDate dt, init)) bins))"
  from assms obtain dt where dt: "dt \<in> set bins"
    and r: "r = mk_row dt (case m (fmtDate dt) of None \<Rightarrow> init | Some c \<Rightarrow> c)"
    by (auto simp: series_of_def Let_def bins_def m_def)
  have d: "date r = dt" by (simp add: r date_mk_row)
  have z: "pr r = 0 \<and> ru r = 0 \<and> no r = 0 \<and> pd r = 0 \<and> tot r = 0"
    if "\<forall>d \<in> set ds. \<forall>p k. pub d = Some p \<longrightarrow> normalizeDocType (doc_type d) = Some k \<longrightarrow>
                is_enabled en k \<longrightarrow> fmtDate (floori iv p) \<noteq> fmtDate (date r)"
  proof -
    have "m (fmtDate dt) = Some init"
      using count_docs_untouched [OF that [unfolded d]] map_of_init [OF dt, of fmtDate init]
      by (simp add: m_def)
    then show ?thesis
      by (simp add: r mk_row_def init_def)
  qed
  show ?thesis
    using dt d z by (simp add: bins_def r mk_row_def)
qed

lemma spec_key_inj:
  assumes "interval_spec iv idx bnd" and "fmtDate (bnd i) = fmtDate (bnd j)"
  shows "bnd i = bnd j"
  using Day_decompose [of "bnd i"] Day_decompose [of "bnd j"] assms(2)
    spec_midnight [OF assms(1), of i] spec_midnight [OF assms(1), of j]
  by (simp add: fmtDate_def)

lemma upto_nth: "k < nat (j - i + 1) \<Longrightarrow> [i..j] ! k = i + int k"
  by simp

lemma series_totality_spec:
  fixes ds :: "doc list" and en :: enabled
  assumes spec: "interval_spec iv idx bnd" and nr: "normRange start fin = (s, e)"
  defines "rows \<equiv> series_of ds start fin iv en"
  shows "length rows = nat (count iv (floori iv s) (floori iv e)) + 1"
    and "0 \<le> count iv (floori iv s) (floori iv e)"
    and "date (rows ! 0) = floori iv s"
    and "date (rows ! (length rows - 1)) = floori iv e"
    and "\<forall>k. k + 1 < length rows \<longrightarrow>
           date (rows ! k) < date (rows ! (k + 1))
           \<and> date (rows ! (k + 1)) = offseti iv (date (rows ! k)) 1"
    and "\<forall>b. floori iv b = b \<and> floori iv s \<le> b \<and> b \<le> floori iv e \<longrightarrow>
           (\<exists>!k. k < length rows \<and> date (rows ! k) = b)"
    and "\<forall>r \<in> set rows. floori iv (date r) = date r \<and> floori iv s \<le> date r
           \<and> date r \<le> floori iv e
           \<and> tot r = pr r + ru r + no r + pd r
           \<and> ((\<forall>d \<in> set ds. \<forall>p k. pub d = Some p \<longrightarrow> normalizeDocType (doc_type d) = Some k
                  \<longrightarrow> is_enabled en k \<longrightarrow> floori iv p \<noteq> date r)
               \<longrightarrow> pr r = 0 \<and> ru r = 0 \<and> no r = 0 \<and> pd r = 0 \<and> tot r = 0)"
    and "sorted_wrt (<) (map date rows)"
proof -
  define a where "a = idx s"
  define b where "b = idx e"
  have ab: "a \<le> b"
    using bins_of_spec(2) [OF spec nr] by (simp add: a_def b_def)
  have dates: "map date rows = map bnd [a..b]"
    using bins_of_spec(1) [OF spec nr] by (simp add: rows_def series_of_dates a_def b_def)
  have len: "length rows = nat (b - a + 1)"
    using arg_cong [OF dates, of length] by simp
  have nth: "date (rows ! k) = bnd (a + int k)" if "k < length rows" for k
  proof -
    have "date (rows ! k) = map date rows ! k" using that by simp
    also have "\<dots> = bnd ([a..b] ! k)" using that len by (simp add: dates)
    also have "\<dots> = bnd (a + int k)" using that len by (simp add: upto_nth)
    finally show ?thesis .
  qed
  have fs: "floori iv s = bnd a" and fe: "floori iv e = bnd b"
    by (simp_all add: spec_floor [OF spec] a_def b_def)
  have cnt: "count iv (floori iv s) (floori iv e) = b - a"
    by (simp add: fs fe spec_count [OF spec])
  show "length rows = nat (count iv (floori iv s) (floori iv e)) + 1"
    using ab by (simp add: len cnt)
  show "0 \<le> count iv (floori iv s) (floori iv e)"
    using ab by (simp add: cnt)
  show "date (rows ! 0) = floori iv s"
    using nth [of 0] ab len by (simp add: fs)
  show "date (rows ! (length rows - 1)) = floori iv e"
    using nth [of "length rows - 1"] ab len by (simp add: fe)
  show "\<forall>k. k + 1 < length rows \<longrightarrow>
           date (rows ! k) < date (rows ! (k + 1))
           \<and> date (rows ! (k + 1)) = offseti iv (date (rows ! k)) 1"
  proof (intro allI impI)
    fix k assume k: "k + 1 < length rows"
    have e: "a + int (k + 1) = a + int k + 1" by simp
    show "date (rows ! k) < date (rows ! (k + 1))
           \<and> date (rows ! (k + 1)) = offseti iv (date (rows ! k)) 1"
      using nth [of k] nth [of "k + 1"] k spec_step [OF spec, of "a + int k"]
      by (simp only: e spec_offset [OF spec])
  qed
  show "\<forall>b'. floori iv b' = b' \<and> floori iv s \<le> b' \<and> b' \<le> floori iv e \<longrightarrow>
           (\<exists>!k. k < length rows \<and> date (rows ! k) = b')"
  proof (intro allI impI)
    fix b' assume h: "floori iv b' = b' \<and> floori iv s \<le> b' \<and> b' \<le> floori iv e"
    define c where "c = idx b'"
    have bc: "b' = bnd c"
      using h by (simp add: spec_floor [OF spec] c_def)
    have range: "a \<le> c" "c \<le> b"
      using h by (simp_all add: bc fs fe spec_bnd_le_iff [OF spec])
    show "\<exists>!k. k < length rows \<and> date (rows ! k) = b'"
    proof (rule ex1I [of _ "nat (c - a)"])
      show "nat (c - a) < length rows \<and> date (rows ! nat (c - a)) = b'"
        using range nth [of "nat (c - a)"] by (simp add: len bc)
    next
      fix k assume k: "k < length rows \<and> date (rows ! k) = b'"
      then have "bnd (a + int k) = bnd c"
        using nth [of k] by (simp add: bc)
      then have "a + int k = c"
        using spec_bnd_le_iff [OF spec, of "a + int k" c] spec_bnd_le_iff [OF spec, of c "a + int k"]
        by simp
      then show "k = nat (c - a)" by simp
    qed
  qed
  show "\<forall>r \<in> set rows. floori iv (date r) = date r \<and> floori iv s \<le> date r
           \<and> date r \<le> floori iv e
           \<and> tot r = pr r + ru r + no r + pd r
           \<and> ((\<forall>d \<in> set ds. \<forall>p k. pub d = Some p \<longrightarrow> normalizeDocType (doc_type d) = Some k
                  \<longrightarrow> is_enabled en k \<longrightarrow> floori iv p \<noteq> date r)
               \<longrightarrow> pr r = 0 \<and> ru r = 0 \<and> no r = 0 \<and> pd r = 0 \<and> tot r = 0)"
  proof
    fix r assume r: "r \<in> set rows"
    note row = series_of_row [OF r [unfolded rows_def]]
    have "date r \<in> set (map bnd [a..b])"
      using r dates by (metis image_eqI list.set_map)
    then obtain c where c: "date r = bnd c" "a \<le> c" "c \<le> b"
      by auto
    have zero: "pr r = 0 \<and> ru r = 0 \<and> no r = 0 \<and> pd r = 0 \<and> tot r = 0"
      if nd: "\<forall>d \<in> set ds. \<forall>p k. pub d = Some p \<longrightarrow> normalizeDocType (doc_type d) = Some k
                  \<longrightarrow> is_enabled en k \<longrightarrow> floori iv p \<noteq> date r"
    proof -
      have "\<forall>d \<in> set ds. \<forall>p k. pub d = Some p \<longrightarrow> normalizeDocType (doc_type d) = Some k \<longrightarrow>
                is_enabled en k \<longrightarrow> fmtDate (floori iv p) \<noteq> fmtDate (date r)"
      proof (intro ballI allI impI)
        fix d p k
        assume d: "d \<in> set ds" "pub d = Some p" "normalizeDocType (doc_type d) = Some k"
            "is_enabled en k"
        show "fmtDate (floori iv p) \<noteq> fmtDate (date r)"
        proof
          assume "fmtDate (floori iv p) = fmtDate (date r)"
          then have "bnd (idx p) = bnd c"
            using spec_key_inj [OF spec, of "idx p" c] by (simp add: spec_floor [OF spec] c(1))
          with nd d show False
            by (simp add: spec_floor [OF spec] c(1))
        qed
      qed
      with row show ?thesis by blast
    qed
    show "floori iv (date r) = date r \<and> floori iv s \<le> date r
           \<and> date r \<le> floori iv e
           \<and> tot r = pr r + ru r + no r + pd r
           \<and> ((\<forall>d \<in> set ds. \<forall>p k. pub d = Some p \<longrightarrow> normalizeDocType (doc_type d) = Some k
                  \<longrightarrow> is_enabled en k \<longrightarrow> floori iv p \<noteq> date r)
               \<longrightarrow> pr r = 0 \<and> ru r = 0 \<and> no r = 0 \<and> pd r = 0 \<and> tot r = 0)"
      using c row zero
      by (simp add: spec_floor_bnd [OF spec] fs fe spec_bnd_le_iff [OF spec])
  qed
  show "sorted_wrt (<) (map date rows)"
    unfolding sorted_wrt_iff_nth_less
  proof (intro allI impI)
    fix i j assume ij: "i < j" "j < length (map date rows)"
    then have "bnd (a + int i) < bnd (a + int j)"
      by (simp add: spec_bnd_less_iff [OF spec])
    then show "map date rows ! i < map date rows ! j"
      using ij nth [of i] nth [of j] by simp
  qed
qed


lemma bump_total:
  "pr (bump k c) + ru (bump k c) + no (bump k c) + pd (bump k c) = pr c + ru c + no c + pd c + 1"
  by (cases k) (simp_all add: bump_def)

lemma count_docs_step:
  "\<exists>m'. count_docs iv en (d # ds) m = count_docs iv en ds m'"
  by (simp add: Let_def split: option.splits) blast

lemma count_docs_keeps_positive:
  "m key = Some c \<Longrightarrow> 0 < pr c + ru c + no c + pd c
   \<Longrightarrow> \<exists>c'. count_docs iv en ds m key = Some c' \<and> 0 < pr c' + ru c' + no c' + pd c'"
proof (induction ds arbitrary: m c)
  case Nil
  then show ?case by simp
next
  case (Cons d ds)
  note same = Cons.IH [of m c, OF Cons.prems]
  show ?case
  proof (cases "pub d")
    case None
    then show ?thesis using same by simp
  next
    case (Some p)
    show ?thesis
    proof (cases "normalizeDocType (doc_type d)")
      case None
      then show ?thesis using Some same by simp
    next
      case k: (Some k)
      show ?thesis
      proof (cases "is_enabled en k")
        case False
        then show ?thesis using Some k same by simp
      next
        case True
        define key' where "key' = fmtDate (floori iv p)"
        define base where "base = (case m key' of None \<Rightarrow> init | Some c \<Rightarrow> c)"
        define m' where "m' = m(key' \<mapsto> bump k base)"
        have step: "count_docs iv en (d # ds) m = count_docs iv en ds m'"
          using Some k True by (simp add: Let_def key'_def base_def m'_def)
        have "\<exists>c''. m' key = Some c'' \<and> 0 < pr c'' + ru c'' + no c'' + pd c''"
        proof (cases "key' = key")
          case True
          then have "m' key = Some (bump k base)"
            by (simp add: m'_def)
          moreover have "0 < pr (bump k base) + ru (bump k base) + no (bump k base)
              + pd (bump k base)"
            using bump_total [of k base] by linarith
          ultimately show ?thesis
            by blast
        next
          case False
          then have "m' key = Some c"
            using Cons.prems(1) by (simp add: m'_def)
          then show ?thesis
            using Cons.prems(2) by simp
        qed
        then obtain c'' where c'': "m' key = Some c''" "0 < pr c'' + ru c'' + no c'' + pd c''"
          by (elim exE conjE)
        show ?thesis
          unfolding step by (rule Cons.IH [of m' c'', OF c''])
      qed
    qed
  qed
qed

lemma count_docs_counted:
  assumes "d \<in> set ds" and "pub d = Some p" and "normalizeDocType (doc_type d) = Some k"
    and "is_enabled en k"
  shows "\<exists>c. count_docs iv en ds m (fmtDate (floori iv p)) = Some c
             \<and> 0 < pr c + ru c + no c + pd c"
  using assms(1)
proof (induction ds arbitrary: m)
  case Nil
  then show ?case by simp
next
  case (Cons x ds)
  show ?case
  proof (cases "x = d")
    case True
    define key where "key = fmtDate (floori iv p)"
    define base where "base = (case m key of None \<Rightarrow> init | Some c \<Rightarrow> c)"
    define m' where "m' = m(key \<mapsto> bump k base)"
    have step: "count_docs iv en (x # ds) m = count_docs iv en ds m'"
      using True assms(2-4) by (simp add: Let_def key_def base_def m'_def)
    have "m' key = Some (bump k base)"
      by (simp add: m'_def)
    moreover have "0 < pr (bump k base) + ru (bump k base) + no (bump k base) + pd (bump k base)"
      using bump_total [of k base] by linarith
    ultimately show ?thesis
      unfolding step key_def [symmetric]
      by (rule count_docs_keeps_positive [of m' key "bump k base"])
  next
    case False
    then have "d \<in> set ds"
      using Cons.prems by simp
    moreover obtain m' where "count_docs iv en (x # ds) m = count_docs iv en ds m'"
      using count_docs_step by blast
    ultimately show ?thesis
      using Cons.IH by simp
  qed
qed

lemma series_row_positive:
  assumes "d \<in> set ds" and "pub d = Some p" and "normalizeDocType (doc_type d) = Some k"
    and "is_enabled en k" and "floori iv p \<in> set (bins_of iv start fin)"
  shows "\<exists>r \<in> set (series_of ds start fin iv en). date r = floori iv p \<and> 0 < tot r"
proof -
  define bins where "bins = bins_of iv start fin"
  define m where "m = count_docs iv en ds (map_of (map (\<lambda>dt. (fmtDate dt, init)) bins))"
  have "\<exists>c. m (fmtDate (floori iv p)) = Some c \<and> 0 < pr c + ru c + no c + pd c"
    unfolding m_def by (rule count_docs_counted [OF assms(1-4)])
  then obtain c where c: "m (fmtDate (floori iv p)) = Some c" "0 < pr c + ru c + no c + pd c"
    by (elim exE conjE)
  have "mk_row (floori iv p) c \<in> set (series_of ds start fin iv en)"
    using assms(5) c(1) by (force simp: series_of_def Let_def bins_def m_def)
  moreover have "date (mk_row (floori iv p) c) = floori iv p \<and> 0 < tot (mk_row (floori iv p) c)"
    using c(2) by (simp add: mk_row_def)
  ultimately show ?thesis by blast
qed

lemma series_no_docs: "r \<in> set (series_of [] start fin iv en) \<Longrightarrow> tot r = 0"
proof -
  assume "r \<in> set (series_of [] start fin iv en)"
  then obtain dt where dt: "dt \<in> set (bins_of iv start fin)"
    and r: "r = mk_row dt (case map_of (map (\<lambda>dt. (fmtDate dt, init)) (bins_of iv start fin))
                              (fmtDate dt) of None \<Rightarrow> init | Some c \<Rightarrow> c)"
    by (auto simp: series_of_def Let_def)
  have "map_of (map (\<lambda>dt. (fmtDate dt, init)) (bins_of iv start fin)) (fmtDate dt) = Some init"
    using dt by (rule map_of_init)
  then show "tot r = 0"
    by (simp add: r mk_row_def init_def)
qed

lemma series_dates_spec:
  assumes "interval_spec iv idx bnd" and "normRange start fin = (s, e)"
  shows "map date (series_of ds start fin iv en) = map bnd [idx s..idx e]"
  using bins_of_spec(1) [OF assms] by (simp add: series_of_dates)

lemma series_nth_spec:
  assumes "interval_spec iv idx bnd" and "normRange start fin = (s, e)"
    and "k < length (series_of ds start fin iv en)"
  shows "date (series_of ds start fin iv en ! k) = bnd (idx s + int k)"
proof -
  note dates = series_dates_spec [OF assms(1,2), of ds en]
  have len: "length (series_of ds start fin iv en) = nat (idx e - idx s + 1)"
    using arg_cong [OF dates, of length] by simp
  have "date (series_of ds start fin iv en ! k) = map date (series_of ds start fin iv en) ! k"
    using assms(3) by simp
  also have "\<dots> = bnd ([idx s..idx e] ! k)"
    using assms(3) len by (simp add: dates)
  also have "\<dots> = bnd (idx s + int k)"
    using assms(3) len by (simp add: upto_nth)
  finally show ?thesis .
qed

lemma series_step_spec:
  assumes "interval_spec iv idx bnd" and "normRange start fin = (s, e)"
    and "k + 1 < length (series_of ds start fin iv en)"
  shows "\<exists>i. date (series_of ds start fin iv en ! k) = bnd i
             \<and> date (series_of ds start fin iv en ! (k + 1)) = bnd (i + 1)"
proof -
  have "date (series_of ds start fin iv en ! k) = bnd (idx s + int k)"
    using assms(3) by (intro series_nth_spec [OF assms(1,2)]) simp
  moreover have "date (series_of ds start fin iv en ! (k + 1)) = bnd (idx s + int (k + 1))"
    using assms(3) by (intro series_nth_spec [OF assms(1,2)])
  moreover have "idx s + int (k + 1) = idx s + int k + 1"
    by simp
  ultimately show ?thesis
    by metis
qed

lemma series_row_spec:
  assumes "interval_spec iv idx bnd" and "normRange start fin = (s, e)"
    and "r \<in> set (series_of ds start fin iv en)"
  shows "\<exists>i. date r = bnd i"
proof -
  have "date r \<in> set (map date (series_of ds start fin iv en))"
    using assms(3) by simp
  then show ?thesis
    unfolding series_dates_spec [OF assms(1,2)] by auto
qed

subsection \<open>The series by zoom unit\<close>

lemma tickCfg_days: "map lower_char u = ''days'' \<Longrightarrow> tickCfg u = timeDay"
  by (cases "u = []") (simp_all add: tickCfg_def Let_def)

lemma tickCfg_weeks: "map lower_char u = ''weeks'' \<Longrightarrow> tickCfg u = timeWeek"
  by (cases "u = []") (simp_all add: tickCfg_def Let_def)

lemma tickCfg_years: "map lower_char u = ''years'' \<Longrightarrow> tickCfg u = timeYear"
  by (cases "u = []") (simp_all add: tickCfg_def Let_def)

lemma tickCfg_months:
  "map lower_char u \<notin> {''days'', ''weeks'', ''years''} \<Longrightarrow> tickCfg u = timeMonth"
  by (cases "u = []") (simp_all add: tickCfg_def Let_def)

lemma day_bound_Suc: "day_bound (i + 1) = day_bound i + msPerDay"
  by (simp add: day_bound_def algebra_simps)

lemma week_bound_Suc: "week_bound (i + 1) = week_bound i + 7 * msPerDay"
  by (simp add: week_bound_def algebra_simps)

lemma WeekDay_week_bound: "WeekDay (week_bound i) = 0"
  by (simp add: WeekDay_def week_bound_def Day_times)

lemma series_by_unit:
  assumes "interval_spec iv idx bnd" and "active_interval (zoomUnit st) (bucket st) = iv"
  shows "map date (series st)
           = map bnd [idx (fst (normRange (st_start st) (st_end st)))
                      ..idx (snd (normRange (st_start st) (st_end st)))]"
    and "\<forall>k. k + 1 < length (series st) \<longrightarrow>
           (\<exists>i. date (series st ! k) = bnd i \<and> date (series st ! (k + 1)) = bnd (i + 1))"
    and "\<forall>r \<in> set (series st). \<exists>i. date r = bnd i"
proof -
  have nr: "normRange (st_start st) (st_end st)
      = (fst (normRange (st_start st) (st_end st)), snd (normRange (st_start st) (st_end st)))"
    by simp
  have rows: "series st = series_of (docs st) (st_start st) (st_end st) iv (enabledTypes st)"
    by (simp add: series_def assms(2))
  show "map date (series st)
           = map bnd [idx (fst (normRange (st_start st) (st_end st)))
                      ..idx (snd (normRange (st_start st) (st_end st)))]"
    unfolding rows by (rule series_dates_spec [OF assms(1) nr])
  show "\<forall>k. k + 1 < length (series st) \<longrightarrow>
           (\<exists>i. date (series st ! k) = bnd i \<and> date (series st ! (k + 1)) = bnd (i + 1))"
    unfolding rows using series_step_spec [OF assms(1) nr] by blast
  show "\<forall>r \<in> set (series st). \<exists>i. date r = bnd i"
    unfolding rows using series_row_spec [OF assms(1) nr] by blast
qed

lemma series_days:
  assumes "\<not> bucket st \<or> map lower_char (zoomUnit st) = ''days''"
  shows "active_interval (zoomUnit st) (bucket st) = timeDay
    \<and> map date (series st)
        = map day_bound [day_index (fst (normRange (st_start st) (st_end st)))
                         ..day_index (snd (normRange (st_start st) (st_end st)))]
    \<and> (\<forall>k. k + 1 < length (series st) \<longrightarrow>
          date (series st ! (k + 1)) = date (series st ! k) + msPerDay)"
proof -
  have iv: "active_interval (zoomUnit st) (bucket st) = timeDay"
    using assms by (auto simp: active_interval_def tickCfg_days)
  note u = series_by_unit [OF interval_spec_day iv]
  have "\<forall>k. k + 1 < length (series st) \<longrightarrow>
          date (series st ! (k + 1)) = date (series st ! k) + msPerDay"
    using u(2) by (auto simp: day_bound_Suc)
  with iv u(1) show ?thesis by simp
qed

lemma series_weeks:
  assumes "bucket st \<and> map lower_char (zoomUnit st) = ''weeks''"
  shows "active_interval (zoomUnit st) (bucket st) = timeWeek
    \<and> map date (series st)
        = map week_bound [week_index (fst (normRange (st_start st) (st_end st)))
                          ..week_index (snd (normRange (st_start st) (st_end st)))]
    \<and> (\<forall>k. k + 1 < length (series st) \<longrightarrow>
          date (series st ! (k + 1)) = date (series st ! k) + 7 * msPerDay)
    \<and> (\<forall>r \<in> set (series st). WeekDay (date r) = 0)"
proof -
  have iv: "active_interval (zoomUnit st) (bucket st) = timeWeek"
    using assms by (simp add: active_interval_def tickCfg_weeks)
  note u = series_by_unit [OF interval_spec_week iv]
  have a: "\<forall>k. k + 1 < length (series st) \<longrightarrow>
          date (series st ! (k + 1)) = date (series st ! k) + 7 * msPerDay"
    using u(2) by (auto simp: week_bound_Suc)
  have b: "\<forall>r \<in> set (series st). WeekDay (date r) = 0"
    using u(3) by (auto simp: WeekDay_week_bound)
  from iv u(1) a b show ?thesis by simp
qed

lemma series_months:
  assumes "bucket st \<and> map lower_char (zoomUnit st) \<notin> {''days'', ''weeks'', ''years''}"
  shows "active_interval (zoomUnit st) (bucket st) = timeMonth
    \<and> map date (series st)
        = map month_bound [month_index (fst (normRange (st_start st) (st_end st)))
                           ..month_index (snd (normRange (st_start st) (st_end st)))]
    \<and> (\<forall>k. k + 1 < length (series st) \<longrightarrow>
          month_index (date (series st ! (k + 1))) = month_index (date (series st ! k)) + 1)
    \<and> (\<forall>r \<in> set (series st). DateFromTime (date r) = 1)"
proof -
  have iv: "active_interval (zoomUnit st) (bucket st) = timeMonth"
    using assms tickCfg_months [of "zoomUnit st"] by (simp add: active_interval_def)
  note u = series_by_unit [OF interval_spec_month iv]
  have a: "\<forall>k. k + 1 < length (series st) \<longrightarrow>
          month_index (date (series st ! (k + 1))) = month_index (date (series st ! k)) + 1"
    using u(2) by (auto simp: month_index_bound)
  have b: "\<forall>r \<in> set (series st). DateFromTime (date r) = 1"
    using u(3) by (auto simp: fields_month_bound)
  from iv u(1) a b show ?thesis by simp
qed

lemma series_years:
  assumes "bucket st \<and> map lower_char (zoomUnit st) = ''years''"
  shows "active_interval (zoomUnit st) (bucket st) = timeYear
    \<and> map date (series st)
        = map year_bound [year_index (fst (normRange (st_start st) (st_end st)))
                          ..year_index (snd (normRange (st_start st) (st_end st)))]
    \<and> (\<forall>k. k + 1 < length (series st) \<longrightarrow>
          YearFromTime (date (series st ! (k + 1))) = YearFromTime (date (series st ! k)) + 1)
    \<and> (\<forall>r \<in> set (series st). MonthFromTime (date r) = 0 \<and> DateFromTime (date r) = 1)"
proof -
  have iv: "active_interval (zoomUnit st) (bucket st) = timeYear"
    using assms by (simp add: active_interval_def tickCfg_years)
  note u = series_by_unit [OF interval_spec_year iv]
  have a: "\<forall>k. k + 1 < length (series st) \<longrightarrow>
          YearFromTime (date (series st ! (k + 1))) = YearFromTime (date (series st ! k)) + 1"
    using u(2) by (auto simp: YearFromTime_year_bound)
  have b: "\<forall>r \<in> set (series st). MonthFromTime (date r) = 0 \<and> DateFromTime (date r) = 1"
    using u(3) by (auto simp: MonthFromTime_year_bound DateFromTime_year_bound)
  from iv u(1) a b show ?thesis by simp
qed

lemma series_midnights: "\<forall>r \<in> set (series st). TimeWithinDay (date r) = 0"
proof -
  obtain idx bnd where spec: "interval_spec (active_interval (zoomUnit st) (bucket st)) idx bnd"
    using active_interval_spec [of "zoomUnit st" "bucket st"] by blast
  show ?thesis
    using series_by_unit(3) [OF spec refl] by (auto simp: spec_midnight [OF spec])
qed

lemma ex_state_interval: "active_interval (zoomUnit ex_state) (bucket ex_state) = timeMonth"
  by (simp add: ex_state_def active_interval_def tickCfg_def lower_char_def)

lemma ex_state_range:
  "normRange (st_start ex_state) (st_end ex_state) = (1705276800000, 1710028800000)"
  by (simp add: ex_state_def normRange_def midnight_def MakeDate_def msPerDay_def)

lemma ex_state_indices:
  "month_index 1705276800000 = 24288" "month_index 1710028800000 = 24290"
  "month_index (midnight 19740) = 24288" "month_index (midnight 19780) = 24289"
  by code_simp+

lemma ex_month_bounds:
  "month_bound 24288 = 1704067200000" "month_bound 24289 = 1706745600000"
  "month_bound 24290 = 1709251200000"
  by code_simp+

lemma floori_timeMonth: "floori timeMonth t = month_bound (month_index t)"
  by (rule spec_floor [OF interval_spec_month])

lemma ex_state_dates:
  "map date (series ex_state) = [1704067200000, 1706745600000, 1709251200000]"
proof -
  have "[24288..24290] = [24288, 24289, 24290::int]"
    by code_simp
  then show ?thesis
    using series_dates_spec [OF interval_spec_month ex_state_range, of "docs ex_state"
        "enabledTypes ex_state"]
    by (simp add: series_def ex_state_interval ex_state_indices ex_month_bounds)
qed

text \<open>
  C2. The zoom unit, read without regard to case, selects the buckets: days when the
  aggregate flag is off or the unit is \<open>days\<close>, weeks beginning on Sunday for \<open>weeks\<close>,
  calendar years for \<open>years\<close>, and calendar months for \<open>months\<close> and any other unit. The
  dates of the series are the boundaries of the buckets from the one holding the start
  to the one holding the end (the two taken in order), each once and in order: for days
  the midnights of consecutive days, for weeks the midnights of consecutive Sundays,
  seven days apart, for months the first days of consecutive months, for years the
  first days of consecutive years. Whatever the interval, the series has \<open>count + 1\<close>
  rows, where \<open>count\<close> is the number of boundaries after the floor of the start up to the
  floor of the end, so at least one; the first date is the floor of the start and the
  last the floor of the end; each date is strictly after the one before and is its
  offset by one interval; every boundary in the range is the date of exactly one row;
  and a row to whose date no counted document is floored has all counts zero. Times are
  taken in the fixed zero-offset zone of the embedding.
\<close>

theorem series_totality:
  "let iv = active_interval (zoomUnit st) (bucket st);
       unit = map lower_char (zoomUnit st);
       s = fst (normRange (st_start st) (st_end st));
       e = snd (normRange (st_start st) (st_end st));
       rows = series st
   in (\<not> bucket st \<or> unit = ''days'' \<longrightarrow>
         iv = timeDay
         \<and> map date rows = map day_bound [day_index s..day_index e]
         \<and> (\<forall>k. k + 1 < length rows \<longrightarrow> date (rows ! (k + 1)) = date (rows ! k) + msPerDay))
      \<and> (bucket st \<and> unit = ''weeks'' \<longrightarrow>
         iv = timeWeek
         \<and> map date rows = map week_bound [week_index s..week_index e]
         \<and> (\<forall>k. k + 1 < length rows \<longrightarrow>
               date (rows ! (k + 1)) = date (rows ! k) + 7 * msPerDay)
         \<and> (\<forall>r \<in> set rows. WeekDay (date r) = 0))
      \<and> (bucket st \<and> unit \<notin> {''days'', ''weeks'', ''years''} \<longrightarrow>
         iv = timeMonth
         \<and> map date rows = map month_bound [month_index s..month_index e]
         \<and> (\<forall>k. k + 1 < length rows \<longrightarrow>
               month_index (date (rows ! (k + 1))) = month_index (date (rows ! k)) + 1)
         \<and> (\<forall>r \<in> set rows. DateFromTime (date r) = 1))
      \<and> (bucket st \<and> unit = ''years'' \<longrightarrow>
         iv = timeYear
         \<and> map date rows = map year_bound [year_index s..year_index e]
         \<and> (\<forall>k. k + 1 < length rows \<longrightarrow>
               YearFromTime (date (rows ! (k + 1))) = YearFromTime (date (rows ! k)) + 1)
         \<and> (\<forall>r \<in> set rows. MonthFromTime (date r) = 0 \<and> DateFromTime (date r) = 1))
      \<and> (\<forall>r \<in> set rows. TimeWithinDay (date r) = 0)
      \<and> length rows = nat (count iv (floori iv s) (floori iv e)) + 1
      \<and> 0 \<le> count iv (floori iv s) (floori iv e)
      \<and> date (rows ! 0) = floori iv s
      \<and> date (rows ! (length rows - 1)) = floori iv e
      \<and> (\<forall>k. k + 1 < length rows \<longrightarrow>
            date (rows ! k) < date (rows ! (k + 1))
            \<and> date (rows ! (k + 1)) = offseti iv (date (rows ! k)) 1)
      \<and> (\<forall>b. floori iv b = b \<and> floori iv s \<le> b \<and> b \<le> floori iv e \<longrightarrow>
            (\<exists>!k. k < length rows \<and> date (rows ! k) = b))
      \<and> (\<forall>r \<in> set rows. floori iv (date r) = date r \<and> floori iv s \<le> date r
            \<and> date r \<le> floori iv e
            \<and> tot r = pr r + ru r + no r + pd r
            \<and> ((\<forall>d \<in> set (docs st). \<forall>p k. pub d = Some p
                   \<longrightarrow> normalizeDocType (doc_type d) = Some k
                   \<longrightarrow> is_enabled (enabledTypes st) k \<longrightarrow> floori iv p \<noteq> date r)
                \<longrightarrow> pr r = 0 \<and> ru r = 0 \<and> no r = 0 \<and> pd r = 0 \<and> tot r = 0))"
proof -
  define iv where "iv = active_interval (zoomUnit st) (bucket st)"
  obtain idx bnd where spec: "interval_spec iv idx bnd"
    using active_interval_spec [of "zoomUnit st" "bucket st"] by (auto simp: iv_def)
  have nr: "normRange (st_start st) (st_end st)
      = (fst (normRange (st_start st) (st_end st)), snd (normRange (st_start st) (st_end st)))"
    by simp
  have rows: "series st = series_of (docs st) (st_start st) (st_end st) iv (enabledTypes st)"
    by (simp add: series_def iv_def)
  note d = impI [OF series_days [of st, folded iv_def]]
  note w = impI [OF series_weeks [of st, folded iv_def]]
  note m = impI [OF series_months [of st, folded iv_def]]
  note y = impI [OF series_years [of st, folded iv_def]]
  note n = series_midnights [of st]
  note t1 = series_totality_spec(1) [OF spec nr, of "docs st" "enabledTypes st", folded rows]
  note t2 = series_totality_spec(2) [OF spec nr]
  note t3 = series_totality_spec(3) [OF spec nr, of "docs st" "enabledTypes st", folded rows]
  note t4 = series_totality_spec(4) [OF spec nr, of "docs st" "enabledTypes st", folded rows]
  note t5 = series_totality_spec(5) [OF spec nr, of "docs st" "enabledTypes st", folded rows]
  note t6 = series_totality_spec(6) [OF spec nr, of "docs st" "enabledTypes st", folded rows]
  note t7 = series_totality_spec(7) [OF spec nr, of "docs st" "enabledTypes st", folded rows]
  show ?thesis
    unfolding Let_def iv_def [symmetric]
    using d w m y n t1 t2 t3 t4 t5 t6 t7 by (intro conjI)
qed

theorem series_totality_witness:
  "length (series (ex_state\<lparr>zoomUnit := ''days''\<rparr>)) = 56
   \<and> length (series (ex_state\<lparr>bucket := False\<rparr>)) = 56
   \<and> length (series (ex_state\<lparr>zoomUnit := ''weeks''\<rparr>)) = 9
   \<and> date (series (ex_state\<lparr>zoomUnit := ''weeks''\<rparr>) ! 0) = 1705190400000
   \<and> map date (series ex_state) = [1704067200000, 1706745600000, 1709251200000]
   \<and> map date (series (ex_state\<lparr>zoomUnit := ''years''\<rparr>)) = [1704067200000]
   \<and> tot (series ex_state ! 2) = 0
   \<and> length (series (ex_state\<lparr>st_end := st_start ex_state\<rparr>)) = 1"
proof -
  have r: "fst (normRange (st_start ex_state) (st_end ex_state)) = 1705276800000"
      "snd (normRange (st_start ex_state) (st_end ex_state)) = 1710028800000"
    by (simp_all add: ex_state_range)
  have b: "bucket ex_state"
    by (simp add: ex_state_def)
  have di: "day_index 1705276800000 = 19737" "day_index 1710028800000 = 19792"
    by (simp_all add: day_index_def Day_def msPerDay_def)
  have wi: "week_index 1705276800000 = 2820" "week_index 1710028800000 = 2828"
    by (simp_all add: week_index_def Day_def msPerDay_def)
  have yi: "year_index 1705276800000 = 2024" "year_index 1710028800000 = 2024"
    unfolding year_index_def by code_simp+
  have hd: "\<not> bucket (ex_state\<lparr>zoomUnit := ''days''\<rparr>)
      \<or> map lower_char (zoomUnit (ex_state\<lparr>zoomUnit := ''days''\<rparr>)) = ''days''"
    by (simp add: lower_char_def)
  from series_totality [of "ex_state\<lparr>zoomUnit := ''days''\<rparr>", unfolded Let_def,
      THEN conjunct1, THEN mp, OF hd, THEN conjunct2, THEN conjunct1]
  have "map date (series (ex_state\<lparr>zoomUnit := ''days''\<rparr>)) = map day_bound [19737..19792]"
    by (simp add: r di)
  from arg_cong [OF this, of length]
  have days: "length (series (ex_state\<lparr>zoomUnit := ''days''\<rparr>)) = 56"
    by simp
  have hn: "\<not> bucket (ex_state\<lparr>bucket := False\<rparr>)
      \<or> map lower_char (zoomUnit (ex_state\<lparr>bucket := False\<rparr>)) = ''days''"
    by simp
  from series_totality [of "ex_state\<lparr>bucket := False\<rparr>", unfolded Let_def,
      THEN conjunct1, THEN mp, OF hn, THEN conjunct2, THEN conjunct1]
  have "map date (series (ex_state\<lparr>bucket := False\<rparr>)) = map day_bound [19737..19792]"
    by (simp add: r di)
  from arg_cong [OF this, of length]
  have forced: "length (series (ex_state\<lparr>bucket := False\<rparr>)) = 56"
    by simp
  have hw: "bucket (ex_state\<lparr>zoomUnit := ''weeks''\<rparr>)
      \<and> map lower_char (zoomUnit (ex_state\<lparr>zoomUnit := ''weeks''\<rparr>)) = ''weeks''"
    using b by (simp add: lower_char_def)
  from series_totality [of "ex_state\<lparr>zoomUnit := ''weeks''\<rparr>", unfolded Let_def,
      THEN conjunct2, THEN conjunct1, THEN mp, OF hw, THEN conjunct2, THEN conjunct1]
  have wd: "map date (series (ex_state\<lparr>zoomUnit := ''weeks''\<rparr>)) = map week_bound [2820..2828]"
    by (simp add: r wi)
  from arg_cong [OF wd, of length]
  have weeks: "length (series (ex_state\<lparr>zoomUnit := ''weeks''\<rparr>)) = 9"
    by simp
  have "map date (series (ex_state\<lparr>zoomUnit := ''weeks''\<rparr>)) ! 0 = week_bound 2820"
    unfolding wd by (simp add: upto_rec1 [of 2820 2828])
  then have sunday: "date (series (ex_state\<lparr>zoomUnit := ''weeks''\<rparr>) ! 0) = 1705190400000"
    using weeks by (simp add: week_bound_def msPerDay_def)
  have hm: "bucket ex_state
      \<and> map lower_char (zoomUnit ex_state) \<notin> {''days'', ''weeks'', ''years''}"
    by (simp add: ex_state_def lower_char_def)
  have l3: "[24288..24290] = [24288, 24289, 24290::int]"
    by code_simp
  from series_totality [of ex_state, unfolded Let_def,
      THEN conjunct2, THEN conjunct2, THEN conjunct1, THEN mp, OF hm, THEN conjunct2,
      THEN conjunct1]
  have months: "map date (series ex_state) = [1704067200000, 1706745600000, 1709251200000]"
    by (simp add: r ex_state_indices l3 ex_month_bounds)
  have hy: "bucket (ex_state\<lparr>zoomUnit := ''years''\<rparr>)
      \<and> map lower_char (zoomUnit (ex_state\<lparr>zoomUnit := ''years''\<rparr>)) = ''years''"
    using b by (simp add: lower_char_def)
  have yb: "year_bound 2024 = 1704067200000"
    by code_simp
  from series_totality [of "ex_state\<lparr>zoomUnit := ''years''\<rparr>", unfolded Let_def,
      THEN conjunct2, THEN conjunct2, THEN conjunct2, THEN conjunct1, THEN mp, OF hy,
      THEN conjunct2, THEN conjunct1]
  have years: "map date (series (ex_state\<lparr>zoomUnit := ''years''\<rparr>)) = [1704067200000]"
    by (simp add: r yi yb)
  have len: "length (series ex_state) = 3"
    using arg_cong [OF months, of length] by simp
  have d2: "date (series ex_state ! 2) = 1709251200000"
    using arg_cong [OF months, of "\<lambda>xs. xs ! 2"] len by simp
  have nd: "\<forall>d \<in> set (docs ex_state). \<forall>p k. pub d = Some p
      \<longrightarrow> normalizeDocType (doc_type d) = Some k
      \<longrightarrow> is_enabled (enabledTypes ex_state) k \<longrightarrow> floori timeMonth p \<noteq> 1709251200000"
    by (simp add: ex_state_def with_pub_def ex_rule_def ex_notice_def ex_other_def
        floori_timeMonth ex_state_indices ex_month_bounds)
  have in2: "series ex_state ! 2 \<in> set (series ex_state)"
    using len by simp
  from series_totality [of ex_state, unfolded Let_def ex_state_interval,
      THEN conjunct2, THEN conjunct2, THEN conjunct2, THEN conjunct2, THEN conjunct2,
      THEN conjunct2, THEN conjunct2, THEN conjunct2, THEN conjunct2, THEN conjunct2,
      THEN conjunct2, THEN bspec, OF in2]
  have zero: "tot (series ex_state ! 2) = 0"
    using nd by (simp add: d2)
  have hs: "bucket (ex_state\<lparr>st_end := st_start ex_state\<rparr>)
      \<and> map lower_char (zoomUnit (ex_state\<lparr>st_end := st_start ex_state\<rparr>))
         \<notin> {''days'', ''weeks'', ''years''}"
    using hm by simp
  from series_totality [of "ex_state\<lparr>st_end := st_start ex_state\<rparr>", unfolded Let_def,
      THEN conjunct2, THEN conjunct2, THEN conjunct1, THEN mp, OF hs, THEN conjunct2,
      THEN conjunct1]
  have "map date (series (ex_state\<lparr>st_end := st_start ex_state\<rparr>))
      = map month_bound [month_index (st_start ex_state)..month_index (st_start ex_state)]"
    by (simp add: normRange_def)
  from arg_cong [OF this, of length]
  have one: "length (series (ex_state\<lparr>st_end := st_start ex_state\<rparr>)) = 1"
    by simp
  from days forced weeks sunday months years zero one show ?thesis
    by (intro conjI)
qed

subsection \<open>Click on the chart\<close>

lemma click_active:
  "chart_drawn (series st) \<Longrightarrow>
   active (click st x0) = Some (map date (series st) ! click_index (map date (series st)) x0)
   \<and> bucketLoading (click st x0)"
proof -
  assume drawn: "chart_drawn (series st)"
  then have ne: "series st \<noteq> []"
    by (auto simp: chart_drawn_def)
  obtain idx bnd where spec: "interval_spec (active_interval (zoomUnit st) (bucket st)) idx bnd"
    using active_interval_spec [of "zoomUnit st" "bucket st"] by blast
  have nr: "normRange (st_start st) (st_end st)
      = (fst (normRange (st_start st) (st_end st)), snd (normRange (st_start st) (st_end st)))"
    by simp
  have "sorted_wrt (<) (map date (series st))"
    unfolding series_def by (rule series_totality_spec(8) [OF spec nr])
  moreover have "map date (series st) \<noteq> []"
    using ne by simp
  ultimately have "click_index (map date (series st)) x0 < length (map date (series st))"
    using click_index_nearest by blast
  then show ?thesis
    using drawn ne by (simp add: click_def Let_def)
qed

lemma click_no_chart: "\<not> chart_drawn (series st) \<Longrightarrow> click st x0 = st"
  by (simp add: click_def Let_def)

lemma chart_drawn_iff:
  "rows \<noteq> [] \<Longrightarrow> chart_drawn rows \<longleftrightarrow> (\<exists>r \<in> set rows. 0 < tot r)"
  by (auto simp: chart_drawn_def list_all_iff)

lemma no_docs_not_drawn: "docs st = [] \<Longrightarrow> \<not> chart_drawn (series st)"
  using series_no_docs [of _ "st_start st" "st_end st"
      "active_interval (zoomUnit st) (bucket st)" "enabledTypes st"]
  by (auto simp: chart_drawn_def list_all_iff series_def)

lemma ex_state_drawn: "chart_drawn (series ex_state)"
proof -
  have k: "normalizeDocType (doc_type (with_pub ex_rule)) = Some RULE"
    by code_simp
  have f: "floori timeMonth (midnight 19740) = 1704067200000"
    by (simp add: floori_timeMonth ex_state_indices ex_month_bounds)
  have bins: "bins_of timeMonth (st_start ex_state) (st_end ex_state)
      = [1704067200000, 1706745600000, 1709251200000]"
    using ex_state_dates by (simp add: series_def ex_state_interval series_of_dates)
  have "\<exists>r \<in> set (series_of (docs ex_state) (st_start ex_state) (st_end ex_state) timeMonth
        (enabledTypes ex_state)). date r = floori timeMonth (midnight 19740) \<and> 0 < tot r"
  proof (rule series_row_positive [of "with_pub ex_rule" _ _ RULE])
    show "with_pub ex_rule \<in> set (docs ex_state)"
      by (simp add: ex_state_def)
    show "pub (with_pub ex_rule) = Some (midnight 19740)"
      by (simp add: with_pub_def ex_rule_def)
    show "normalizeDocType (doc_type (with_pub ex_rule)) = Some RULE"
      by (rule k)
    show "is_enabled (enabledTypes ex_state) RULE"
      by (simp add: ex_state_def is_enabled_def)
    show "floori timeMonth (midnight 19740)
        \<in> set (bins_of timeMonth (st_start ex_state) (st_end ex_state))"
      by (simp add: f bins)
  qed
  then have "\<exists>r \<in> set (series ex_state). 0 < tot r"
    by (auto simp: series_def ex_state_interval)
  moreover have "series ex_state \<noteq> []"
    using arg_cong [OF ex_state_dates, of length] by auto
  ultimately show ?thesis
    by (simp add: chart_drawn_iff)
qed

text \<open>
  C5 (as amended). The chart and its click overlay are drawn exactly when some bucket of
  the series has a total other than 0; when they are not, a click changes nothing. A
  click at time \<open>x0\<close> on the drawn chart makes active the bucket boundary nearest to \<open>x0\<close>
  by absolute time distance; when \<open>x0\<close> is equally far from two boundaries, the later one
  is chosen.
\<close>

theorem click_nearest_bucket:
  "let rows = series st; dates = map date rows; i = click_index dates x0
   in rows \<noteq> [] \<and> i < length dates
      \<and> (chart_drawn rows \<longleftrightarrow> (\<exists>r \<in> set rows. 0 < tot r))
      \<and> (chart_drawn rows \<longrightarrow>
            active (click st x0) = Some (dates ! i) \<and> bucketLoading (click st x0))
      \<and> (\<not> chart_drawn rows \<longrightarrow> click st x0 = st)
      \<and> (\<forall>j < length dates. \<bar>x0 - dates ! i\<bar> \<le> \<bar>x0 - dates ! j\<bar>)
      \<and> (\<forall>j < length dates. \<bar>x0 - dates ! j\<bar> = \<bar>x0 - dates ! i\<bar> \<longrightarrow> j \<le> i)"
proof -
  define iv where "iv = active_interval (zoomUnit st) (bucket st)"
  obtain idx bnd where spec: "interval_spec iv idx bnd"
    using active_interval_spec [of "zoomUnit st" "bucket st"] by (auto simp: iv_def)
  have nr: "normRange (st_start st) (st_end st)
      = (fst (normRange (st_start st) (st_end st)), snd (normRange (st_start st) (st_end st)))"
    by simp
  have rows: "series st = series_of (docs st) (st_start st) (st_end st) iv (enabledTypes st)"
    by (simp add: series_def iv_def)
  note t1 = series_totality_spec(1) [OF spec nr, of "docs st" "enabledTypes st", folded rows]
  note t8 = series_totality_spec(8) [OF spec nr, of "docs st" "enabledTypes st", folded rows]
  have ne: "series st \<noteq> []"
    using t1 by auto
  then have ne': "map date (series st) \<noteq> []"
    by simp
  note n = click_index_nearest [OF t8 ne', of x0]
  note dr = chart_drawn_iff [OF ne]
  note a = impI [OF click_active [of st x0]]
  note b = impI [OF click_no_chart [of st x0]]
  from ne n dr a b show ?thesis
    unfolding Let_def by (elim conjE, intro conjI)
qed

theorem click_nearest_bucket_witness:
  "chart_drawn (series ex_state)
   \<and> click_index (map date (series ex_state)) 1706486400000 = 1
   \<and> active (click ex_state 1706486400000) = Some 1706745600000
   \<and> \<bar>1706486400000 - 1706745600000\<bar> \<le> \<bar>1706486400000 - (1704067200000::int)\<bar>
   \<and> \<not> chart_drawn (series (ex_state\<lparr>docs := []\<rparr>))
   \<and> click (ex_state\<lparr>docs := []\<rparr>) 1706486400000 = ex_state\<lparr>docs := []\<rparr>"
proof -
  note d = ex_state_dates
  have i: "click_index [1704067200000, 1706745600000, 1709251200000] 1706486400000 = 1"
    by code_simp
  note t = click_nearest_bucket [of ex_state 1706486400000, unfolded Let_def d i]
  from t [THEN conjunct2, THEN conjunct2, THEN conjunct2, THEN conjunct1, THEN mp,
      OF ex_state_drawn]
  have a: "active (click ex_state 1706486400000) = Some 1706745600000"
    by simp
  have nd: "\<not> chart_drawn (series (ex_state\<lparr>docs := []\<rparr>))"
    by (rule no_docs_not_drawn) simp
  from click_nearest_bucket [of "ex_state\<lparr>docs := []\<rparr>" 1706486400000, unfolded Let_def,
      THEN conjunct2, THEN conjunct2, THEN conjunct2, THEN conjunct2, THEN conjunct1,
      THEN mp, OF nd]
  have c: "click (ex_state\<lparr>docs := []\<rparr>) 1706486400000 = ex_state\<lparr>docs := []\<rparr>" .
  from ex_state_drawn i a nd c show ?thesis
    by (simp add: d)
qed

text \<open>
  The claim as first stated fails at a tie: the time 2024-01-16 12:00 is equally far from
  the boundaries 2024-01-01 and 2024-02-01 of the sample series, and the click sets the
  later one. It fails also where nothing is drawn: with no documents every total is 0,
  and a click leaves the selection empty.
\<close>

theorem click_tie_counterexample:
  "map date (series ex_state) = [1704067200000, 1706745600000, 1709251200000]
   \<and> chart_drawn (series ex_state)
   \<and> \<bar>1705406400000 - 1704067200000\<bar> = \<bar>1705406400000 - (1706745600000::int)\<bar>
   \<and> active (click ex_state 1705406400000) = Some 1706745600000
   \<and> \<not> chart_drawn (series (ex_state\<lparr>docs := [], active := None\<rparr>))
   \<and> active (click (ex_state\<lparr>docs := [], active := None\<rparr>) 1705406400000) = None"
proof -
  have i: "click_index [1704067200000, 1706745600000, 1709251200000] 1705406400000 = 1"
    by code_simp
  have a: "active (click ex_state 1705406400000) = Some 1706745600000"
    using click_active [OF ex_state_drawn, of 1705406400000] by (simp add: ex_state_dates i)
  have nd: "\<not> chart_drawn (series (ex_state\<lparr>docs := [], active := None\<rparr>))"
    by (rule no_docs_not_drawn) simp
  have n: "active (click (ex_state\<lparr>docs := [], active := None\<rparr>) 1705406400000) = None"
    by (simp add: click_no_chart [OF nd])
  from ex_state_drawn a nd n show ?thesis
    by (simp add: ex_state_dates)
qed

subsection \<open>Fetching from the registry\<close>

lemma push_new_append:
  "push_new key conv (xs @ ys) all seen
     = push_new key conv ys (fst (push_new key conv xs all seen)) (snd (push_new key conv xs all seen))"
  by (induction xs arbitrary: all seen) simp_all

lemma push_new_seen: "snd (push_new key conv ds all seen) = seen \<union> key ` set ds"
  by (induction ds arbitrary: all seen) auto

lemma dedup_keys: "docKey ` set (dedup rs) = docKey ` set rs"
  using push_new_invariant [where key' = docKey and key = docKey and conv = with_pub
      and all = "[]" and seen = "{}" and ds = rs, OF docKey_with_pub]
    push_new_seen [of docKey with_pub rs "[]" "{}"]
  by (simp add: dedup_def)

lemma dedup_distinct: "distinct (map docKey (dedup rs))"
  using push_new_invariant [where key' = docKey and key = docKey and conv = with_pub
      and all = "[]" and seen = "{}" and ds = rs, OF docKey_with_pub]
  by (simp add: dedup_def)

lemma length_insert_by: "length (insert_by cmp x ys) = Suc (length ys)"
  by (induction ys) auto

lemma length_sort_by: "length (sort_by cmp xs) = length xs"
  unfolding sort_by_def by (induction xs) (auto simp: length_insert_by)

lemma registry_matches_set:
  "set (registry_matches db q) = {d \<in> set db. in_range (q_gte q) (q_lte q) d}"
  by (simp add: registry_matches_def set_sort_by)

lemma registry_matches_length:
  "length (registry_matches db q) = length (filter (in_range (q_gte q) (q_lte q)) db)"
  by (simp add: registry_matches_def length_sort_by)

lemma registry_matches_page: "registry_matches db (q\<lparr>q_page := p\<rparr>) = registry_matches db q"
  by (simp add: registry_matches_def)

lemma pages_needed:
  fixes n p :: nat
  shows "(n + 999) div 1000 < p \<Longrightarrow> n \<le> 1000 * (p - 1)"
    and "1000 * p \<le> n \<Longrightarrow> 0 < p \<Longrightarrow> p \<le> (n + 999) div 1000"
    and "1000 * (p - 1) < n \<Longrightarrow> p \<le> (n + 999) div 1000"
  by arith+

lemma registry_fetch_pages:
  fixes db :: "rawdoc list" and q :: query
  defines "M \<equiv> registry_matches db q"
  shows "1 \<le> page \<Longrightarrow> page \<le> HARD_MAX + 1 \<Longrightarrow> 1000 * (page - 1) \<le> length M
    \<Longrightarrow> tp = (if page = 1 then None else Some (int ((length M + 999) div 1000)))
    \<Longrightarrow> all = fst (push_new docKey with_pub (take (1000 * (page - 1)) M) [] {})
    \<Longrightarrow> seen = snd (push_new docKey with_pub (take (1000 * (page - 1)) M) [] {})
    \<Longrightarrow> fetch_pages (registry db) q page tp all seen w
        = (Inr (dedup (take (1000 * HARD_MAX) M)), w)"
proof (induction "length M - 1000 * (page - 1)" arbitrary: page tp all seen rule: less_induct)
  case less
  define T where "T = (length M + 999) div 1000"
  define rest where "rest = drop (1000 * (page - 1)) M"
  define rs where "rs = take 1000 rest"
  have resp: "registry db w (q\<lparr>q_page := page\<rparr>)
      = (Response 200 None (Inr \<lparr>results = Some rs, total_pages = Some (int T)\<rparr>), w)"
    by (simp add: registry_def registry_matches_page Let_def M_def [symmetric] rs_def rest_def T_def)
  have ok200: "ok 200" by (simp add: ok_def)
  have pr: "page_results \<lparr>results = Some rs, total_pages = Some (int T)\<rparr> = rs"
    by (simp add: page_results_def)
  have upto: "take (1000 * (page - 1)) M @ rs = take (1000 * page) M"
  proof -
    have "1000 * page = 1000 * (page - 1) + 1000" using less.prems(1) by simp
    then show ?thesis by (simp add: rs_def rest_def take_add)
  qed
  have "push_new docKey with_pub (take (1000 * page) M) [] {}
      = push_new docKey with_pub (take (1000 * (page - 1)) M @ rs) [] {}"
    by (simp only: upto)
  also have "\<dots> = push_new docKey with_pub rs all seen"
    by (simp only: push_new_append less.prems(5,6))
  finally have acc: "push_new docKey with_pub rs all seen
      = push_new docKey with_pub (take (1000 * page) M) [] {}"
    by simp
  show ?case
  proof (cases "more_pages page tp")
    case False
    then have p1: "page \<noteq> 1"
      using less.prems(4) by (auto simp: more_pages_def HARD_MAX_def)
    then have "T < page \<or> HARD_MAX < page"
      using False less.prems(4) by (auto simp: more_pages_def T_def)
    then have "take (1000 * (page - 1)) M = take (1000 * HARD_MAX) M"
    proof
      assume "T < page"
      then have "length M \<le> 1000 * (page - 1)"
        using pages_needed(1) [of "length M" page] by (simp add: T_def)
      moreover have "1000 * (page - 1) \<le> 1000 * HARD_MAX"
        using less.prems(2) by simp
      ultimately show ?thesis by simp
    next
      assume "HARD_MAX < page"
      with less.prems(2) have "page - 1 = HARD_MAX" by simp
      then show ?thesis by simp
    qed
    then show ?thesis
      using False less.prems(5) by (simp add: fetch_pages_stop dedup_def)
  next
    case True
    then have pm: "page \<le> HARD_MAX"
      by (simp add: more_pages_def)
    show ?thesis
    proof (cases "length rs < 1000")
      case short: True
      then have le: "length M \<le> 1000 * page"
        using less.prems(1,3) by (auto simp: rs_def rest_def min_def split: if_splits)
      moreover have "1000 * page \<le> 1000 * HARD_MAX"
        using pm by simp
      ultimately have "take (1000 * page) M = take (1000 * HARD_MAX) M" by simp
      then show ?thesis
        using fetch_pages_last [of page tp "registry db" w q 200 None
            "\<lparr>results = Some rs, total_pages = Some (int T)\<rparr>" w all seen]
          True resp ok200 short
        by (simp add: pr acc dedup_def)
    next
      case long: False
      then have full: "1000 * page \<le> length M"
        using less.prems(1,3) by (auto simp: rs_def rest_def min_def split: if_splits)
      have Tpos: "0 < T"
        using pages_needed(2) [OF full] less.prems(1) by (simp add: T_def)
      have nt: "next_total \<lparr>results = Some rs, total_pages = Some (int T)\<rparr> tp = Some (int T)"
        using Tpos by (simp add: next_total_def)
      have step: "fetch_pages (registry db) q page tp all seen w
          = fetch_pages (registry db) q (page + 1) (Some (int T))
              (fst (push_new docKey with_pub rs all seen))
              (snd (push_new docKey with_pub rs all seen)) w"
        using fetch_pages_next [of page tp "registry db" w q 200 None
            "\<lparr>results = Some rs, total_pages = Some (int T)\<rparr>" w all seen]
          True resp ok200 long
        by (simp add: pr nt)
      have "fetch_pages (registry db) q (page + 1) (Some (int T))
              (fst (push_new docKey with_pub rs all seen))
              (snd (push_new docKey with_pub rs all seen)) w
          = (Inr (dedup (take (1000 * HARD_MAX) M)), w)"
      proof (rule less.hyps)
        show "length M - 1000 * (page + 1 - 1) < length M - 1000 * (page - 1)"
          using full less.prems(1) by simp
        show "1 \<le> page + 1" by simp
        show "page + 1 \<le> HARD_MAX + 1" using pm by simp
        show "1000 * (page + 1 - 1) \<le> length M" using full by simp
        show "Some (int T) = (if page + 1 = 1 then None else Some (int ((length M + 999) div 1000)))"
          using less.prems(1) by (simp add: T_def)
        show "fst (push_new docKey with_pub rs all seen)
            = fst (push_new docKey with_pub (take (1000 * (page + 1 - 1)) M) [] {})"
          by (simp add: acc)
        show "snd (push_new docKey with_pub rs all seen)
            = snd (push_new docKey with_pub (take (1000 * (page + 1 - 1)) M) [] {})"
          by (simp add: acc)
      qed
      with step show ?thesis by simp
    qed
  qed
qed

lemma fetchFR_registry_capped:
  "fetchFR (registry db) opts w
     = (Inr (dedup (take (1000 * HARD_MAX) (registry_matches db (baseParams opts)))), w)"
  unfolding fetchFR_def
  by (rule registry_fetch_pages) simp_all

lemma fetchFR_registry:
  assumes "length (registry_matches db (baseParams opts)) \<le> 1000 * HARD_MAX"
  shows "fetchFR (registry db) opts w = (Inr (dedup (registry_matches db (baseParams opts))), w)"
  using assms by (simp add: fetchFR_registry_capped)

lemma push_new_length:
  "length (fst (push_new key conv ds all seen)) \<le> length all + length ds"
proof (induction ds arbitrary: all seen)
  case Nil
  then show ?case by simp
next
  case (Cons d ds)
  show ?case
    using Cons.IH [of all seen] Cons.IH [of "all @ [conv d]" "insert (key d) seen"] by simp
qed

lemma dedup_length: "length (dedup rs) \<le> length rs"
  using push_new_length [of docKey with_pub rs "[]" "{}"] by (simp add: dedup_def)

subsection \<open>Span splitting\<close>

lemma offseti_timeDay: "offseti timeDay t k = t + k * msPerDay"
  by (simp add: timeDay_def setDate_eq)

lemma normRange_le: "normRange a b = (s, e) \<Longrightarrow> s \<le> e"
  by (auto simp: normRange_def split: if_splits)

lemma year_edges:
  assumes "s \<le> e"
  shows "iv_range timeYear (floori timeYear s) (offseti timeYear (floori timeYear e) 1)
         = map year_bound [YearFromTime s..YearFromTime e]"
proof -
  have le: "year_index s \<le> year_index e"
    using assms by (rule spec_idx_mono [OF interval_spec_year])
  show ?thesis
    using iv_range_spec [OF interval_spec_year le]
    by (simp add: spec_floor [OF interval_spec_year] spec_offset [OF interval_spec_year]
        year_index_def)
qed

lemma fetchFRSpan_split:
  assumes "normRange (opt_start opts) (opt_end opts) = (s, e)"
    and "\<not> e - s < 1000 * 60 * 60 * 24 * 548"
  shows "fetchFRSpan F opts w
         = span_loop F opts s e (map year_bound [YearFromTime s..YearFromTime e]) [] {} w"
  using assms year_edges [OF normRange_le [OF assms(1)]]
  by (simp add: fetchFRSpan_def)

lemma DayFromYear_mono: "y \<le> y' \<Longrightarrow> DayFromYear y \<le> DayFromYear y'"
  by (rule mono_int [of DayFromYear, OF DayFromYear_less_Suc])

lemma Day_max: "Day (max a b) = max (Day a) (Day b)"
proof (cases "a \<le> b")
  case True
  then show ?thesis using Day_mono [of a b] by (simp add: max_def)
next
  case False
  then have "b \<le> a" by simp
  then show ?thesis using Day_mono [of b a] False by (simp add: max_def)
qed

lemma Day_min: "Day (min a b) = min (Day a) (Day b)"
proof (cases "a \<le> b")
  case True
  then show ?thesis using Day_mono [of a b] by (simp add: min_def)
next
  case False
  then have "b \<le> a" by simp
  then show ?thesis using Day_mono [of b a] False by (simp add: min_def)
qed

lemma Day_year_bound: "Day (year_bound y) = DayFromYear y"
  by (simp add: year_bound_def Day_times)

lemma Day_year_end: "Day (year_bound (y + 1) - msPerDay) = DayFromYear (y + 1) - 1"
  using Day_shift [of "year_bound (y + 1)" "- 1"] by (simp add: Day_year_bound)

lemma year_sub_range_ordered:
  assumes "s \<le> e" and "YearFromTime s \<le> y" and "y \<le> YearFromTime e"
  shows "year_gte (Day s) y \<le> year_lte (Day e) y"
proof -
  have a: "Day s \<le> Day e" using assms(1) by (rule Day_mono)
  have "Day s < DayFromYear (YearFromTime s + 1)"
    using YearFromDay_spec [of "Day s"] by (simp add: YearFromTime_def)
  moreover have "DayFromYear (YearFromTime s + 1) \<le> DayFromYear (y + 1)"
    using assms(2) by (simp add: DayFromYear_mono)
  ultimately have b: "Day s \<le> DayFromYear (y + 1) - 1" by simp
  have "DayFromYear (YearFromTime e) \<le> Day e"
    using YearFromDay_spec [of "Day e"] by (simp add: YearFromTime_def)
  moreover have "DayFromYear y \<le> DayFromYear (YearFromTime e)"
    using assms(3) by (rule DayFromYear_mono)
  ultimately have c: "DayFromYear y \<le> Day e" by simp
  have d: "DayFromYear y \<le> DayFromYear (y + 1) - 1"
    using DayFromYear_less_Suc [of y] by simp
  show ?thesis
    using a b c d by (simp add: year_gte_def year_lte_def)
qed

lemma sub_range_query:
  assumes nr: "normRange (opt_start opts) (opt_end opts) = (s, e)"
    and y: "YearFromTime s \<le> y" "y \<le> YearFromTime e"
  shows "baseParams (opts\<lparr>opt_start := max s (year_bound y),
                          opt_end := min e (year_bound (y + 1) - msPerDay)\<rparr>)
         = (baseParams opts)\<lparr>q_gte := year_gte (Day s) y, q_lte := year_lte (Day e) y\<rparr>"
proof -
  define s' where "s' = max s (year_bound y)"
  define e' where "e' = min e (year_bound (y + 1) - msPerDay)"
  have ds: "Day s' = year_gte (Day s) y"
    by (simp add: s'_def Day_max Day_year_bound year_gte_def)
  have de: "Day e' = year_lte (Day e) y"
    by (simp add: e'_def Day_min Day_year_end year_lte_def)
  have ord: "Day s' \<le> Day e'"
    using year_sub_range_ordered [OF normRange_le [OF nr] y] by (simp add: ds de)
  have "fmtDate (fst (normRange s' e')) = Day s' \<and> fmtDate (snd (normRange s' e')) = Day e'"
  proof (cases "s' \<le> e'")
    case True
    then show ?thesis by (simp add: normRange_def fmtDate_def)
  next
    case False
    then have "Day e' \<le> Day s'" by (simp add: Day_mono)
    with ord have "Day s' = Day e'" by simp
    with False show ?thesis by (simp add: normRange_def fmtDate_def)
  qed
  then show ?thesis
    by (simp add: baseParams_def Let_def split_beta s'_def [symmetric] e'_def [symmetric] ds de)
qed

lemma filter_length_mono:
  "(\<And>x. P x \<Longrightarrow> Q x) \<Longrightarrow> length (filter P xs) \<le> length (filter Q xs)"
  by (induction xs) auto

lemma in_range_mono: "lo \<le> lo' \<Longrightarrow> hi' \<le> hi \<Longrightarrow> in_range lo' hi' d \<Longrightarrow> in_range lo hi d"
  by (auto simp: in_range_def split: option.splits)

lemma year_in_range_union:
  assumes "s \<le> e"
  shows "(\<exists>y \<in> {YearFromTime s..YearFromTime e}. in_range (year_gte (Day s) y) (year_lte (Day e) y) d)
         \<longleftrightarrow> in_range (Day s) (Day e) d"
proof
  assume "\<exists>y \<in> {YearFromTime s..YearFromTime e}. in_range (year_gte (Day s) y) (year_lte (Day e) y) d"
  then obtain y where "in_range (year_gte (Day s) y) (year_lte (Day e) y) d" by blast
  then show "in_range (Day s) (Day e) d"
    by (rule in_range_mono [rotated 2]) (simp_all add: year_gte_def year_lte_def)
next
  assume r: "in_range (Day s) (Day e) d"
  then obtain p where p: "publication_date d = Some p" "Day s \<le> p" "p \<le> Day e"
    by (auto simp: in_range_def split: option.splits)
  define y where "y = YearFromDay p"
  have yp: "DayFromYear y \<le> p" "p < DayFromYear (y + 1)"
    using YearFromDay_spec [of p] by (simp_all add: y_def)
  have ss: "DayFromYear (YearFromTime s) \<le> Day s"
    and ee: "Day e < DayFromYear (YearFromTime e + 1)"
    using YearFromDay_spec [of "Day s"] YearFromDay_spec [of "Day e"]
    by (simp_all add: YearFromTime_def)
  have lo: "YearFromTime s \<le> y"
  proof (rule ccontr)
    assume "\<not> YearFromTime s \<le> y"
    then have "y + 1 \<le> YearFromTime s" by simp
    from DayFromYear_mono [OF this] yp ss p show False by linarith
  qed
  have hi: "y \<le> YearFromTime e"
  proof (rule ccontr)
    assume "\<not> y \<le> YearFromTime e"
    then have "YearFromTime e + 1 \<le> y" by simp
    from DayFromYear_mono [OF this] yp ee p show False by linarith
  qed
  have "in_range (year_gte (Day s) y) (year_lte (Day e) y) d"
    using p yp by (simp add: in_range_def year_gte_def year_lte_def)
  with lo hi show "\<exists>y \<in> {YearFromTime s..YearFromTime e}.
      in_range (year_gte (Day s) y) (year_lte (Day e) y) d"
    by auto
qed

lemma merge_batch:
  assumes "seen = docKey ` set out0" and "distinct (map docKey out0)"
  shows "snd (push_new docKey (\<lambda>d. d) batch out0 seen)
           = docKey ` set (fst (push_new docKey (\<lambda>d. d) batch out0 seen))"
    and "distinct (map docKey (fst (push_new docKey (\<lambda>d. d) batch out0 seen)))"
    and "docKey ` set (fst (push_new docKey (\<lambda>d. d) batch out0 seen))
           = docKey ` set out0 \<union> docKey ` set batch"
proof -
  note inv = push_new_invariant [where key' = docKey and key = docKey and conv = "\<lambda>d. d",
      OF _ assms, of batch]
  show a: "snd (push_new docKey (\<lambda>d. d) batch out0 seen)
           = docKey ` set (fst (push_new docKey (\<lambda>d. d) batch out0 seen))"
    using inv by simp
  show "distinct (map docKey (fst (push_new docKey (\<lambda>d. d) batch out0 seen)))"
    using inv by simp
  have "docKey ` set (fst (push_new docKey (\<lambda>d. d) batch out0 seen))
      = snd (push_new docKey (\<lambda>d. d) batch out0 seen)"
    by (rule a [symmetric])
  also have "\<dots> = seen \<union> docKey ` set batch"
    by (rule push_new_seen)
  finally show "docKey ` set (fst (push_new docKey (\<lambda>d. d) batch out0 seen))
      = docKey ` set out0 \<union> docKey ` set batch"
    by (simp add: assms(1))
qed

lemma span_loop_step:
  assumes nr: "normRange (opt_start opts) (opt_end opts) = (s, e)"
    and bound: "length (filter (in_range (year_gte (Day s) y) (year_lte (Day e) y)) db)
                  \<le> 1000 * HARD_MAX"
    and y: "YearFromTime s \<le> y" "y \<le> YearFromTime e"
    and rest: "rest = [] \<or> (\<exists>more. rest = year_bound (y + 1) # more)"
  shows "span_loop (registry db) opts s e (year_bound y # rest) out0 seen w
         = span_loop (registry db) opts s e rest
             (fst (push_new docKey (\<lambda>d. d)
                (dedup (registry_matches db
                   ((baseParams opts)\<lparr>q_gte := year_gte (Day s) y, q_lte := year_lte (Day e) y\<rparr>)))
                out0 seen))
             (snd (push_new docKey (\<lambda>d. d)
                (dedup (registry_matches db
                   ((baseParams opts)\<lparr>q_gte := year_gte (Day s) y, q_lte := year_lte (Day e) y\<rparr>)))
                out0 seen)) w"
proof -
  define qy where "qy = (baseParams opts)\<lparr>q_gte := year_gte (Day s) y, q_lte := year_lte (Day e) y\<rparr>"
  have b: "(case rest of [] \<Rightarrow> offseti timeYear (year_bound y) 1 | b' # _ \<Rightarrow> b') = year_bound (y + 1)"
    using rest by (auto simp: spec_offset [OF interval_spec_year])
  have len: "length (registry_matches db qy) \<le> 1000 * HARD_MAX"
    using bound by (simp add: registry_matches_length qy_def)
  have sub: "fetchFR (registry db) (opts\<lparr>opt_start := max s (year_bound y),
        opt_end := min e (year_bound (y + 1) - msPerDay)\<rparr>) w
      = (Inr (dedup (registry_matches db qy)), w)"
    using fetchFR_registry [of db "opts\<lparr>opt_start := max s (year_bound y),
        opt_end := min e (year_bound (y + 1) - msPerDay)\<rparr>" w] len
    by (simp add: sub_range_query [OF nr y] qy_def)
  show ?thesis
    unfolding qy_def [symmetric]
    by (simp add: b offseti_timeDay sub Let_def)
qed

lemma span_loop_registry:
  assumes nr: "normRange (opt_start opts) (opt_end opts) = (s, e)"
    and bound: "\<And>y'. YearFromTime s \<le> y' \<Longrightarrow> y' \<le> YearFromTime e \<Longrightarrow>
       length (filter (in_range (year_gte (Day s) y') (year_lte (Day e) y')) db) \<le> 1000 * HARD_MAX"
  shows "nat (ye - y) = n \<Longrightarrow> YearFromTime s \<le> y \<Longrightarrow> y \<le> ye \<Longrightarrow> ye \<le> YearFromTime e
    \<Longrightarrow> seen = docKey ` set out0 \<Longrightarrow> distinct (map docKey out0)
    \<Longrightarrow> \<exists>out. span_loop (registry db) opts s e (map year_bound [y..ye]) out0 seen w = (Inr out, w)
          \<and> distinct (map docKey out)
          \<and> docKey ` set out
              = docKey ` set out0
                \<union> docKey ` {d \<in> set db. \<exists>y' \<in> {y..ye}.
                               in_range (year_gte (Day s) y') (year_lte (Day e) y') d}"
proof (induction n arbitrary: y out0 seen)
  case 0
  then have yy: "ye = y" by simp
  define qy where "qy = (baseParams opts)\<lparr>q_gte := year_gte (Day s) y, q_lte := year_lte (Day e) y\<rparr>"
  define acc where "acc = push_new docKey (\<lambda>d. d) (dedup (registry_matches db qy)) out0 seen"
  note mb = merge_batch [OF "0.prems"(5,6), of "dedup (registry_matches db qy)", folded acc_def]
  note inv = mb(1,2)
  have keys: "docKey ` set (fst acc)
      = docKey ` set out0 \<union> docKey ` {d \<in> set db. in_range (year_gte (Day s) y) (year_lte (Day e) y) d}"
    unfolding mb(3) by (simp add: dedup_keys registry_matches_set qy_def)
  have "span_loop (registry db) opts s e (map year_bound [y..ye]) out0 seen w = (Inr (fst acc), w)"
    using span_loop_step [OF nr bound "0.prems"(2), of "[]" out0 seen w] "0.prems"(2,4) yy
    by (simp add: acc_def qy_def)
  then show ?case
    using inv(2) keys yy by auto
next
  case (Suc n)
  then have lt: "y < ye" and n: "nat (ye - (y + 1)) = n" and le: "y + 1 \<le> ye"
    by simp_all
  define qy where "qy = (baseParams opts)\<lparr>q_gte := year_gte (Day s) y, q_lte := year_lte (Day e) y\<rparr>"
  define acc where "acc = push_new docKey (\<lambda>d. d) (dedup (registry_matches db qy)) out0 seen"
  note mb = merge_batch [OF Suc.prems(5,6), of "dedup (registry_matches db qy)", folded acc_def]
  note inv = mb(1,2)
  have keys: "docKey ` set (fst acc)
      = docKey ` set out0 \<union> docKey ` {d \<in> set db. in_range (year_gte (Day s) y) (year_lte (Day e) y) d}"
    unfolding mb(3) by (simp add: dedup_keys registry_matches_set qy_def)
  have l1: "[y..ye] = y # [y + 1..ye]"
    using lt by (simp add: upto_rec1 [of y ye])
  have l2: "[y + 1..ye] = (y + 1) # [y + 1 + 1..ye]"
    using le by (simp add: upto_rec1 [of "y + 1" ye])
  have yle: "y \<le> YearFromTime e"
    using lt Suc.prems(4) by simp
  have step: "span_loop (registry db) opts s e (map year_bound [y..ye]) out0 seen w
      = span_loop (registry db) opts s e (map year_bound [y + 1..ye]) (fst acc) (snd acc) w"
    using span_loop_step [OF nr bound Suc.prems(2) yle, of "map year_bound [y + 1..ye]" out0 seen w]
      l2 Suc.prems(2) yle
    by (simp add: l1 acc_def qy_def)
  have y1: "YearFromTime s \<le> y + 1"
    using Suc.prems(2) by simp
  obtain out where out: "span_loop (registry db) opts s e (map year_bound [y + 1..ye])
        (fst acc) (snd acc) w = (Inr out, w)"
      "distinct (map docKey out)"
      "docKey ` set out = docKey ` set (fst acc)
         \<union> docKey ` {d \<in> set db. \<exists>y' \<in> {y + 1..ye}.
               in_range (year_gte (Day s) y') (year_lte (Day e) y') d}"
    using Suc.IH [OF n y1 le Suc.prems(4) inv] by blast
  have split: "{y..ye} = insert y {y + 1..ye}"
    using lt by auto
  have "docKey ` set out = docKey ` set out0
      \<union> docKey ` {d \<in> set db. \<exists>y' \<in> {y..ye}.
            in_range (year_gte (Day s) y') (year_lte (Day e) y') d}"
    unfolding out(3) keys split by blast
  with step out(1,2) show ?case by simp
qed

lemma year_bound_of_range:
  "length (filter (in_range (Day s) (Day e)) db) \<le> n
   \<Longrightarrow> length (filter (in_range (year_gte (Day s) y) (year_lte (Day e) y)) db) \<le> n"
proof -
  have "length (filter (in_range (year_gte (Day s) y) (year_lte (Day e) y)) db)
      \<le> length (filter (in_range (Day s) (Day e)) db)"
    by (rule filter_length_mono)
      (erule in_range_mono [rotated 2], simp_all add: year_gte_def year_lte_def)
  then show "length (filter (in_range (Day s) (Day e)) db) \<le> n
   \<Longrightarrow> length (filter (in_range (year_gte (Day s) y) (year_lte (Day e) y)) db) \<le> n"
    by simp
qed

lemma threshold_ms: "548 * msPerDay = 47347200000"
  by (simp add: msPerDay_def)

lemma baseParams_dates:
  "q_gte (baseParams opts) = Day (fst (normRange (opt_start opts) (opt_end opts)))"
  "q_lte (baseParams opts) = Day (snd (normRange (opt_start opts) (opt_end opts)))"
  by (simp_all add: baseParams_def Let_def split_beta fmtDate_def)

lemma fetchFRSpan_registry:
  assumes nr: "normRange (opt_start opts) (opt_end opts) = (s, e)"
    and big: "548 * msPerDay \<le> e - s"
    and bound: "\<And>y'. YearFromTime s \<le> y' \<Longrightarrow> y' \<le> YearFromTime e \<Longrightarrow>
       length (filter (in_range (year_gte (Day s) y') (year_lte (Day e) y')) db) \<le> 1000 * HARD_MAX"
  shows "\<exists>out. fetchFRSpan (registry db) opts w = (Inr out, w)
           \<and> distinct (map docKey out)
           \<and> docKey ` set out = docKey ` {d \<in> set db. in_range (Day s) (Day e) d}"
proof -
  have se: "s \<le> e" using nr by (rule normRange_le)
  have yy: "YearFromTime s \<le> YearFromTime e"
    using spec_idx_mono [OF interval_spec_year se] by (simp add: year_index_def)
  have split: "fetchFRSpan (registry db) opts w
      = span_loop (registry db) opts s e (map year_bound [YearFromTime s..YearFromTime e]) [] {} w"
    using big by (intro fetchFRSpan_split [OF nr]) (simp add: threshold_ms)
  obtain out where out: "span_loop (registry db) opts s e
        (map year_bound [YearFromTime s..YearFromTime e]) [] {} w = (Inr out, w)"
      "distinct (map docKey out)"
      "docKey ` set out = docKey ` set []
         \<union> docKey ` {d \<in> set db. \<exists>y' \<in> {YearFromTime s..YearFromTime e}.
               in_range (year_gte (Day s) y') (year_lte (Day e) y') d}"
    using span_loop_registry [OF nr bound refl _ yy, of "{}" "[]" w] by auto
  have "docKey ` set out = docKey ` {d \<in> set db. in_range (Day s) (Day e) d}"
    unfolding out(3) by (simp add: year_in_range_union [OF se])
  with split out(1,2) show ?thesis by simp
qed

subsection \<open>The split as a partition into years\<close>

lemma Day_midnight: "Day (midnight d) = d"
  by (simp add: midnight_def MakeDate_def Day_times)

lemma midnight_mono: "lo \<le> hi \<Longrightarrow> midnight lo \<le> midnight hi"
  using msPerDay_pos by (simp add: midnight_def MakeDate_def)

lemma day_range_query:
  assumes "lo \<le> hi"
  shows "baseParams (opts\<lparr>opt_start := midnight lo, opt_end := midnight hi\<rparr>)
         = (baseParams opts)\<lparr>q_gte := lo, q_lte := hi\<rparr>"
  using midnight_mono [OF assms]
  by (simp add: baseParams_def Let_def normRange_def fmtDate_def Day_midnight)

lemma fetchFR_sub_range:
  assumes nr: "normRange (opt_start opts) (opt_end opts) = (s, e)"
    and y: "YearFromTime s \<le> y" "y \<le> YearFromTime e"
  shows "fetchFR F (opts\<lparr>opt_start := max s (year_bound y),
                         opt_end := min e (offseti timeDay (year_bound (y + 1)) (- 1))\<rparr>) w
         = fetchFR F (opts\<lparr>opt_start := midnight (year_gte (Day s) y),
                           opt_end := midnight (year_lte (Day e) y)\<rparr>) w"
proof -
  have "baseParams (opts\<lparr>opt_start := max s (year_bound y),
                          opt_end := min e (year_bound (y + 1) - msPerDay)\<rparr>)
      = baseParams (opts\<lparr>opt_start := midnight (year_gte (Day s) y),
                           opt_end := midnight (year_lte (Day e) y)\<rparr>)"
    unfolding sub_range_query [OF nr y]
      day_range_query [OF year_sub_range_ordered [OF normRange_le [OF nr] y]] ..
  then show ?thesis
    by (simp add: fetchFR_def offseti_timeDay)
qed

lemma span_loop_fetch_each:
  assumes nr: "normRange (opt_start opts) (opt_end opts) = (s, e)"
  shows "nat (ye - y) = n \<Longrightarrow> YearFromTime s \<le> y \<Longrightarrow> y \<le> ye \<Longrightarrow> ye \<le> YearFromTime e
    \<Longrightarrow> span_loop F opts s e (map year_bound [y..ye]) out seen w
        = spec_split_fetch F opts (map (\<lambda>y. (year_gte (Day s) y, year_lte (Day e) y)) [y..ye])
            out seen w"
proof (induction n arbitrary: y out seen w)
  case 0
  then have yy: "ye = y" by simp
  have l: "[y..y] = [y]"
    by simp
  have b: "offseti timeYear (year_bound y) 1 = year_bound (y + 1)"
    by (rule spec_offset [OF interval_spec_year])
  note sub = fetchFR_sub_range [OF nr "0.prems"(2), of F w]
  show ?case
    using "0.prems"(4) sub
    by (simp add: yy l b Let_def split: prod.splits sum.splits)
next
  case (Suc n)
  then have lt: "y < ye" and n: "nat (ye - (y + 1)) = n" and le: "y + 1 \<le> ye"
    by simp_all
  have l1: "[y..ye] = y # [y + 1..ye]"
    using lt by (simp add: upto_rec1 [of y ye])
  have l2: "[y + 1..ye] = (y + 1) # [y + 1 + 1..ye]"
    using le by (simp add: upto_rec1 [of "y + 1" ye])
  have yle: "y \<le> YearFromTime e"
    using lt Suc.prems(4) by simp
  have y1: "YearFromTime s \<le> y + 1"
    using Suc.prems(2) by simp
  note sub = fetchFR_sub_range [OF nr Suc.prems(2) yle, of F w]
  note ih = Suc.IH [OF n y1 le Suc.prems(4)]
  have b: "(case map year_bound [y + 1..ye] of [] \<Rightarrow> offseti timeYear (year_bound y) 1
             | b' # _ \<Rightarrow> b') = year_bound (y + 1)"
    by (simp add: l2)
  obtain r w' where r: "fetchFR F (opts\<lparr>opt_start := midnight (year_gte (Day s) y),
                           opt_end := midnight (year_lte (Day e) y)\<rparr>) w = (r, w')"
    by (cases "fetchFR F (opts\<lparr>opt_start := midnight (year_gte (Day s) y),
                           opt_end := midnight (year_lte (Day e) y)\<rparr>) w")
  have lhs: "span_loop F opts s e (map year_bound [y..ye]) out seen w
      = (case r of Inl err \<Rightarrow> (Inl err, w')
         | Inr batch \<Rightarrow>
             span_loop F opts s e (map year_bound [y + 1..ye])
               (fst (push_new docKey (\<lambda>d. d) batch out seen))
               (snd (push_new docKey (\<lambda>d. d) batch out seen)) w')"
    unfolding l1 list.map span_loop.simps b Let_def sub r
    by (simp split: sum.splits)
  have rhs: "spec_split_fetch F opts (map (\<lambda>y. (year_gte (Day s) y, year_lte (Day e) y)) [y..ye])
            out seen w
      = (case r of Inl err \<Rightarrow> (Inl err, w')
         | Inr batch \<Rightarrow>
             spec_split_fetch F opts (map (\<lambda>y. (year_gte (Day s) y, year_lte (Day e) y)) [y + 1..ye])
               (fst (push_new docKey (\<lambda>d. d) batch out seen))
               (snd (push_new docKey (\<lambda>d. d) batch out seen)) w')"
    unfolding l1 list.map spec_split_fetch.simps Let_def r
    by (simp split: sum.splits)
  show ?case
    unfolding lhs rhs by (cases r) (simp_all add: ih)
qed

lemma fetchFRSpan_fetch_each:
  assumes nr: "normRange (opt_start opts) (opt_end opts) = (s, e)"
    and big: "548 * msPerDay \<le> e - s"
  shows "fetchFRSpan F opts w = spec_split_fetch F opts (spec_sub_ranges (Day s) (Day e)) [] {} w"
proof -
  have se: "s \<le> e" using nr by (rule normRange_le)
  have yy: "YearFromTime s \<le> YearFromTime e"
    using spec_idx_mono [OF interval_spec_year se] by (simp add: year_index_def)
  have "fetchFRSpan F opts w
      = span_loop F opts s e (map year_bound [YearFromTime s..YearFromTime e]) [] {} w"
    using big by (intro fetchFRSpan_split [OF nr]) (simp add: threshold_ms)
  also have "\<dots> = spec_split_fetch F opts
      (map (\<lambda>y. (year_gte (Day s) y, year_lte (Day e) y)) [YearFromTime s..YearFromTime e])
      [] {} w"
    by (rule span_loop_fetch_each [OF nr refl _ yy]) simp_all
  finally show ?thesis
    by (simp add: spec_sub_ranges_def YearFromTime_def)
qed

lemma year_gte_year:
  assumes "YearFromDay lo \<le> y"
  shows "DayFromYear y \<le> year_gte lo y" and "year_gte lo y < DayFromYear (y + 1)"
    and "YearFromDay lo < y \<Longrightarrow> year_gte lo y = DayFromYear y"
    and "year_gte lo (YearFromDay lo) = lo"
proof -
  have lo: "DayFromYear (YearFromDay lo) \<le> lo" "lo < DayFromYear (YearFromDay lo + 1)"
    using YearFromDay_spec [of lo] by simp_all
  have m: "DayFromYear (YearFromDay lo + 1) \<le> DayFromYear (y + 1)"
    using assms by (simp add: DayFromYear_mono)
  show "DayFromYear y \<le> year_gte lo y"
    by (simp add: year_gte_def)
  show "year_gte lo y < DayFromYear (y + 1)"
    using lo(2) m DayFromYear_less_Suc [of y] by (simp add: year_gte_def)
  show "year_gte lo y = DayFromYear y" if "YearFromDay lo < y"
  proof -
    from that have "YearFromDay lo + 1 \<le> y" by simp
    from DayFromYear_mono [OF this] lo(2) show ?thesis
      by (simp add: year_gte_def)
  qed
  show "year_gte lo (YearFromDay lo) = lo"
    using lo(1) by (simp add: year_gte_def)
qed

lemma year_lte_year:
  assumes "y \<le> YearFromDay hi"
  shows "DayFromYear y \<le> year_lte hi y" and "year_lte hi y < DayFromYear (y + 1)"
    and "y < YearFromDay hi \<Longrightarrow> year_lte hi y = DayFromYear (y + 1) - 1"
    and "year_lte hi (YearFromDay hi) = hi"
proof -
  have hi: "DayFromYear (YearFromDay hi) \<le> hi" "hi < DayFromYear (YearFromDay hi + 1)"
    using YearFromDay_spec [of hi] by simp_all
  have m: "DayFromYear y \<le> DayFromYear (YearFromDay hi)"
    using assms by (rule DayFromYear_mono)
  show "DayFromYear y \<le> year_lte hi y"
    using hi(1) m DayFromYear_less_Suc [of y] by (simp add: year_lte_def)
  show "year_lte hi y < DayFromYear (y + 1)"
    by (simp add: year_lte_def)
  show "year_lte hi y = DayFromYear (y + 1) - 1" if "y < YearFromDay hi"
  proof -
    from that have "y + 1 \<le> YearFromDay hi" by simp
    from DayFromYear_mono [OF this] hi(1) show ?thesis
      by (simp add: year_lte_def)
  qed
  show "year_lte hi (YearFromDay hi) = hi"
    using hi(2) by (simp add: year_lte_def)
qed

lemma sub_ranges_partition:
  assumes "lo \<le> hi"
  defines "rs \<equiv> spec_sub_ranges lo hi"
  shows "rs \<noteq> []" and "fst (hd rs) = lo" and "snd (last rs) = hi"
    and "\<forall>k < length rs. fst (rs ! k) \<le> snd (rs ! k)
           \<and> YearFromDay (fst (rs ! k)) = YearFromDay lo + int k
           \<and> YearFromDay (snd (rs ! k)) = YearFromDay lo + int k"
    and "\<forall>k. k + 1 < length rs \<longrightarrow>
           fst (rs ! (k + 1)) = snd (rs ! k) + 1
           \<and> fst (rs ! (k + 1)) = DayFromYear (YearFromDay lo + int k + 1)"
proof -
  define a where "a = YearFromDay lo"
  define b where "b = YearFromDay hi"
  have ab: "a \<le> b"
  proof (rule ccontr)
    assume "\<not> a \<le> b"
    then have "b + 1 \<le> a" by simp
    from DayFromYear_mono [OF this] YearFromDay_spec [of lo] YearFromDay_spec [of hi] assms(1)
    show False by (simp add: a_def b_def)
  qed
  have rs: "rs = map (\<lambda>y. (year_gte lo y, year_lte hi y)) [a..b]"
    by (simp add: rs_def spec_sub_ranges_def a_def b_def)
  have len: "length rs = nat (b - a + 1)"
    by (simp add: rs)
  have nth: "rs ! k = (year_gte lo (a + int k), year_lte hi (a + int k))" if "k < length rs" for k
    using that len by (simp add: rs upto_nth)
  show "rs \<noteq> []"
    using ab len by auto
  have "hd rs = rs ! 0"
    using \<open>rs \<noteq> []\<close> by (simp add: hd_conv_nth)
  then show "fst (hd rs) = lo"
    using nth [of 0] \<open>rs \<noteq> []\<close> year_gte_year(4) [of lo, OF order_refl] by (simp add: a_def)
  have "last rs = rs ! (length rs - 1)"
    using \<open>rs \<noteq> []\<close> by (simp add: last_conv_nth)
  moreover have "a + int (length rs - 1) = b"
    using ab len by simp
  ultimately show "snd (last rs) = hi"
    using nth [of "length rs - 1"] \<open>rs \<noteq> []\<close> year_lte_year(4) [of _ hi, OF order_refl] by (simp add: b_def)
  show "\<forall>k < length rs. fst (rs ! k) \<le> snd (rs ! k)
           \<and> YearFromDay (fst (rs ! k)) = YearFromDay lo + int k
           \<and> YearFromDay (snd (rs ! k)) = YearFromDay lo + int k"
  proof (intro allI impI)
    fix k assume k: "k < length rs"
    define y where "y = a + int k"
    have y: "YearFromDay lo \<le> y" "y \<le> YearFromDay hi"
      using k len by (simp_all add: y_def a_def b_def)
    have g: "DayFromYear y \<le> year_gte lo y" "year_gte lo y < DayFromYear (y + 1)"
      using year_gte_year(1,2) [OF y(1)] by simp_all
    have l: "DayFromYear y \<le> year_lte hi y" "year_lte hi y < DayFromYear (y + 1)"
      using year_lte_year(1,2) [OF y(2)] by simp_all
    have o: "year_gte lo y \<le> year_lte hi y"
    proof -
      have "lo \<le> DayFromYear (y + 1) - 1"
        using g(2) by (simp add: year_gte_def)
      moreover have "DayFromYear y \<le> hi"
        using l(1) by (simp add: year_lte_def)
      ultimately show ?thesis
        using assms(1) DayFromYear_less_Suc [of y] by (simp add: year_gte_def year_lte_def)
    qed
    show "fst (rs ! k) \<le> snd (rs ! k)
           \<and> YearFromDay (fst (rs ! k)) = YearFromDay lo + int k
           \<and> YearFromDay (snd (rs ! k)) = YearFromDay lo + int k"
      using o YearFromDay_unique [OF g] YearFromDay_unique [OF l]
      by (simp add: nth [OF k] y_def [symmetric]) (simp add: y_def a_def)
  qed
  show "\<forall>k. k + 1 < length rs \<longrightarrow>
           fst (rs ! (k + 1)) = snd (rs ! k) + 1
           \<and> fst (rs ! (k + 1)) = DayFromYear (YearFromDay lo + int k + 1)"
  proof (intro allI impI)
    fix k assume k: "k + 1 < length rs"
    define y where "y = a + int k"
    have y: "YearFromDay lo < y + 1" "y < YearFromDay hi" "YearFromDay lo \<le> y + 1"
      "y \<le> YearFromDay hi"
      using k len by (simp_all add: y_def a_def b_def)
    have e: "a + int (k + 1) = y + 1"
      by (simp add: y_def)
    have "rs ! (k + 1) = (year_gte lo (y + 1), year_lte hi (y + 1))"
      unfolding nth [OF k] e ..
    then have "fst (rs ! (k + 1)) = DayFromYear (y + 1)"
      using year_gte_year(3) [OF y(3) y(1)] by simp
    moreover have "snd (rs ! k) = DayFromYear (y + 1) - 1"
      using nth [of k] k year_lte_year(3) [OF y(4) y(2)] by (simp add: y_def)
    ultimately show "fst (rs ! (k + 1)) = snd (rs ! k) + 1
           \<and> fst (rs ! (k + 1)) = DayFromYear (YearFromDay lo + int k + 1)"
      by (simp add: y_def a_def)
  qed
qed

lemma unsplit_fetch_keys:
  "docKey ` set (spec_unsplit_fetch db opts)
     = docKey ` {d \<in> set db. in_range (Day (fst (normRange (opt_start opts) (opt_end opts))))
                                 (Day (snd (normRange (opt_start opts) (opt_end opts)))) d}"
  by (simp add: spec_unsplit_fetch_def dedup_keys registry_matches_set baseParams_dates)

lemma fetchFR_unsplit:
  assumes "length (filter (in_range (Day (fst (normRange (opt_start opts) (opt_end opts))))
                      (Day (snd (normRange (opt_start opts) (opt_end opts))))) db)
             \<le> 1000 * HARD_MAX"
  shows "fetchFR (registry db) opts w = (Inr (spec_unsplit_fetch db opts), w)"
  unfolding spec_unsplit_fetch_def
  by (rule fetchFR_registry) (use assms in \<open>simp add: registry_matches_length baseParams_dates\<close>)

subsection \<open>Above the page ceiling\<close>

lemma docKey_big_record: "docKey (big_record i) = replicate (Suc i) CHR ''1''"
  by (simp add: docKey_def big_record_def truthy_def js_str_def)

lemma docKey_ex_2018: "docKey ex_2018 = ''2018-11111''"
  by (simp add: docKey_def ex_2018_def truthy_def js_str_def)

lemma big_list_distinct: "distinct (map docKey (big_list n))"
proof -
  have a: "docKey ex_2018 \<noteq> docKey (big_record i)" for i
  proof
    assume "docKey ex_2018 = docKey (big_record i)"
    then have "hd (docKey ex_2018) = hd (docKey (big_record i))" by simp
    then show False by (simp add: docKey_big_record docKey_ex_2018)
  qed
  have "inj_on (\<lambda>i. docKey (big_record i)) (set [0..<n])"
  proof (rule inj_onI)
    fix i j assume "docKey (big_record i) = docKey (big_record j)"
    then have "length (docKey (big_record i)) = length (docKey (big_record j))" by simp
    then show "i = j" by (simp add: docKey_big_record)
  qed
  then have b: "distinct (map (\<lambda>i. docKey (big_record i)) [0..<n])"
    by (simp add: distinct_map)
  show ?thesis
    unfolding big_list_def using a b by (auto simp: comp_def)
qed

lemma big_list_length: "length (big_list n) = Suc n"
  by (simp add: big_list_def)

lemma big_list_filter:
  "filter (in_range lo hi) (big_list n)
     = (if lo \<le> 17683 \<and> 17683 \<le> hi then [ex_2018] else [])
       @ (if lo \<le> 18048 \<and> 18048 \<le> hi then map big_record [0..<n] else [])"
proof -
  have a: "in_range lo hi ex_2018 \<longleftrightarrow> lo \<le> 17683 \<and> 17683 \<le> hi"
    by (simp add: in_range_def ex_2018_def)
  have b: "in_range lo hi (big_record i) \<longleftrightarrow> lo \<le> 18048 \<and> 18048 \<le> hi" for i
    by (simp add: in_range_def big_record_def)
  have c: "filter (in_range lo hi) (map big_record [0..<n])
      = (if lo \<le> 18048 \<and> 18048 \<le> hi then map big_record [0..<n] else [])"
    by (induction n) (simp_all add: b)
  show ?thesis
    unfolding big_list_def using a c by simp
qed

lemma ex_long_range:
  "normRange (opt_start ex_long_opts) (opt_end ex_long_opts) = (1514764800000, 1562198400000)"
  by (simp add: ex_long_opts_def ex_span_opts_def normRange_def midnight_def MakeDate_def
      msPerDay_def)

lemma ex_long_days: "Day 1514764800000 = 17532" "Day 1562198400000 = 18081"
  by (simp_all add: Day_def msPerDay_def)

lemma ex_long_years: "YearFromTime 1514764800000 = 2018" "YearFromTime 1562198400000 = 2019"
  by code_simp+

lemma ex_year_days:
  "DayFromYear 2018 = 17532" "DayFromYear 2019 = 17897" "DayFromYear 2020 = 18262"
  by (simp_all add: DayFromYear_def)

lemma fetch_each_registry_step:
  assumes "lo \<le> hi"
  shows "spec_split_fetch (registry db) opts ((lo, hi) # rs) out seen w
         = spec_split_fetch (registry db) opts rs
             (fst (push_new docKey (\<lambda>d. d)
                (dedup (take (1000 * HARD_MAX)
                   (registry_matches db ((baseParams opts)\<lparr>q_gte := lo, q_lte := hi\<rparr>))))
                out seen))
             (snd (push_new docKey (\<lambda>d. d)
                (dedup (take (1000 * HARD_MAX)
                   (registry_matches db ((baseParams opts)\<lparr>q_gte := lo, q_lte := hi\<rparr>))))
                out seen)) w"
  by (simp add: fetchFR_registry_capped day_range_query [OF assms] Let_def)

lemma ex_long_sub_ranges: "spec_sub_ranges 17532 18081 = [(17532, 17896), (17897, 18081)]"
proof -
  have y: "YearFromDay 17532 = 2018" "YearFromDay 18081 = 2019"
    by code_simp+
  have l: "[2018..2019] = [2018, 2019 :: int]"
    by code_simp
  show ?thesis
    by (simp add: spec_sub_ranges_def y l year_gte_def year_lte_def ex_year_days)
qed

text \<open>
  A range of 549 days whose second year holds one record more than 100 pages hold: the
  sub-fetch of that year stops at the page ceiling, and the span fetch returns fewer
  identities than the range holds.
\<close>

lemma span_ceiling_divergence:
  "\<exists>out. fetchFRSpan (registry big_db) ex_long_opts () = (Inr out, ())
     \<and> card (docKey ` set out) \<le> 1000 * HARD_MAX + 1
     \<and> card (docKey ` set (spec_unsplit_fetch big_db ex_long_opts)) = 1000 * HARD_MAX + 2"
proof -
  define n where "n = 1000 * HARD_MAX + 1"
  define cap where "cap = 1000 * HARD_MAX"
  have db: "big_db = big_list n"
    by (simp add: big_db_def n_def)
  have big: "548 * msPerDay \<le> 1562198400000 - 1514764800000"
    by (simp add: msPerDay_def)
  define q where "q = baseParams ex_long_opts"
  define b1 where "b1 = dedup (take cap (registry_matches (big_list n)
      (q\<lparr>q_gte := 17532, q_lte := 17896\<rparr>)))"
  define b2 where "b2 = dedup (take cap (registry_matches (big_list n)
      (q\<lparr>q_gte := 17897, q_lte := 18081\<rparr>)))"
  define a1 where "a1 = push_new docKey (\<lambda>d. d) b1 [] {}"
  define a2 where "a2 = push_new docKey (\<lambda>d. d) b2 (fst a1) (snd a1)"
  have s1: "spec_split_fetch (registry (big_list n)) ex_long_opts [(17532, 17896), (17897, 18081)]
        [] {} ()
      = spec_split_fetch (registry (big_list n)) ex_long_opts [(17897, 18081)] (fst a1) (snd a1) ()"
    unfolding a1_def b1_def q_def cap_def by (rule fetch_each_registry_step) simp
  have s2: "spec_split_fetch (registry (big_list n)) ex_long_opts [(17897, 18081)] (fst a1) (snd a1) ()
      = spec_split_fetch (registry (big_list n)) ex_long_opts [] (fst a2) (snd a2) ()"
    unfolding a2_def b2_def q_def cap_def by (rule fetch_each_registry_step) simp
  have run: "fetchFRSpan (registry (big_list n)) ex_long_opts () = (Inr (fst a2), ())"
    unfolding fetchFRSpan_fetch_each [OF ex_long_range big] ex_long_days ex_long_sub_ranges s1 s2
    by simp
  have l1: "length b1 \<le> 1"
  proof -
    have "length b1 \<le> length (registry_matches (big_list n) (q\<lparr>q_gte := 17532, q_lte := 17896\<rparr>))"
      unfolding b1_def using dedup_length [of "take cap (registry_matches (big_list n)
          (q\<lparr>q_gte := 17532, q_lte := 17896\<rparr>))"] by simp
    also have "\<dots> = 1"
      by (simp add: registry_matches_length big_list_filter)
    finally show ?thesis .
  qed
  have l2: "length b2 \<le> cap"
    unfolding b2_def using dedup_length [of "take cap (registry_matches (big_list n)
        (q\<lparr>q_gte := 17897, q_lte := 18081\<rparr>))"] by simp
  have "length (fst a2) \<le> length (fst a1) + length b2"
    unfolding a2_def by (rule push_new_length)
  moreover have "length (fst a1) \<le> length ([] :: doc list) + length b1"
    unfolding a1_def by (rule push_new_length)
  ultimately have len: "length (fst a2) \<le> cap + 1"
    using l1 l2 by simp
  have "card (docKey ` set (fst a2)) \<le> card (set (fst a2))"
    by (rule card_image_le) simp
  also have "\<dots> \<le> length (fst a2)"
    by (rule card_length)
  finally have few: "card (docKey ` set (fst a2)) \<le> cap + 1"
    using len by simp
  have all: "{d \<in> set (big_list n). in_range 17532 18081 d} = set (big_list n)"
  proof -
    have "filter (in_range 17532 18081) (big_list n) = big_list n"
      unfolding big_list_filter by (simp add: big_list_def)
    then have "set (filter (in_range 17532 18081) (big_list n)) = set (big_list n)"
      by simp
    then show ?thesis
      by simp
  qed
  have "docKey ` set (spec_unsplit_fetch (big_list n) ex_long_opts) = set (map docKey (big_list n))"
    by (simp add: unsplit_fetch_keys ex_long_range ex_long_days all)
  then have many: "card (docKey ` set (spec_unsplit_fetch (big_list n) ex_long_opts)) = Suc n"
    using distinct_card [OF big_list_distinct [of n]] by (simp add: big_list_length)
  from run few many show ?thesis
    unfolding db by (auto simp: n_def cap_def)
qed

text \<open>
  C4 (as amended). A range shorter than 548 days is fetched by the single fetch itself.
  A range of 548 days or more is fetched as the specification describes the split: the
  fetch is run in turn for each of the sub-ranges of the range, their results merged
  under the deduplication by identity. The sub-ranges partition the days of the range
  into consecutive year-aligned pieces: the first begins at the start of the range and
  the last ends at its end, the \<open>k\<close>-th lies within the \<open>k\<close>-th calendar year counted from
  the year of the start, and each next one begins on January 1, the day after the one
  before ends. Against a registry that answers from a fixed list of per-date records,
  and when no sub-range holds more than 100 pages of 1000 records, the span fetch
  succeeds and returns the same set of identities as a single unsplit fetch over the
  whole range, that of the records published within the range, each once. When the whole
  range holds no more than 100 pages, \<open>fetchFR\<close> is that single unsplit fetch.
\<close>

theorem span_split_equivalence:
  "let s = fst (normRange (opt_start opts) (opt_end opts));
       e = snd (normRange (opt_start opts) (opt_end opts));
       rs = spec_sub_ranges (Day s) (Day e)
   in (e - s < 548 * msPerDay \<longrightarrow> fetchFRSpan F opts w = fetchFR F opts w)
      \<and> (548 * msPerDay \<le> e - s \<longrightarrow> fetchFRSpan F opts w = spec_split_fetch F opts rs [] {} w)
      \<and> rs \<noteq> [] \<and> fst (hd rs) = Day s \<and> snd (last rs) = Day e
      \<and> (\<forall>k < length rs. fst (rs ! k) \<le> snd (rs ! k)
            \<and> YearFromDay (fst (rs ! k)) = YearFromTime s + int k
            \<and> YearFromDay (snd (rs ! k)) = YearFromTime s + int k)
      \<and> (\<forall>k. k + 1 < length rs \<longrightarrow>
            fst (rs ! (k + 1)) = snd (rs ! k) + 1
            \<and> fst (rs ! (k + 1)) = DayFromYear (YearFromTime s + int k + 1))
      \<and> (548 * msPerDay \<le> e - s
           \<and> (\<forall>r \<in> set rs. length (filter (in_range (fst r) (snd r)) db) \<le> 1000 * HARD_MAX) \<longrightarrow>
            (\<exists>out. fetchFRSpan (registry db) opts w = (Inr out, w)
               \<and> distinct (map docKey out)
               \<and> docKey ` set out = docKey ` set (spec_unsplit_fetch db opts)
               \<and> docKey ` set out = docKey ` {d \<in> set db. in_range (Day s) (Day e) d}))
      \<and> (length (filter (in_range (Day s) (Day e)) db) \<le> 1000 * HARD_MAX \<longrightarrow>
            fetchFR (registry db) opts w = (Inr (spec_unsplit_fetch db opts), w))"
proof -
  define s where "s = fst (normRange (opt_start opts) (opt_end opts))"
  define e where "e = snd (normRange (opt_start opts) (opt_end opts))"
  define rs where "rs = spec_sub_ranges (Day s) (Day e)"
  have nr: "normRange (opt_start opts) (opt_end opts) = (s, e)"
    by (simp add: s_def e_def)
  have se: "Day s \<le> Day e"
    using normRange_le [OF nr] by (rule Day_mono)
  have a: "e - s < 548 * msPerDay \<longrightarrow> fetchFRSpan F opts w = fetchFR F opts w"
    by (simp add: fetchFRSpan_def nr threshold_ms)
  have b: "548 * msPerDay \<le> e - s \<longrightarrow> fetchFRSpan F opts w = spec_split_fetch F opts rs [] {} w"
    using fetchFRSpan_fetch_each [OF nr, of F w] by (simp add: rs_def)
  note p = sub_ranges_partition [OF se, folded rs_def, folded YearFromTime_def]
  have d: "548 * msPerDay \<le> e - s
           \<and> (\<forall>r \<in> set rs. length (filter (in_range (fst r) (snd r)) db) \<le> 1000 * HARD_MAX) \<longrightarrow>
            (\<exists>out. fetchFRSpan (registry db) opts w = (Inr out, w)
               \<and> distinct (map docKey out)
               \<and> docKey ` set out = docKey ` set (spec_unsplit_fetch db opts)
               \<and> docKey ` set out = docKey ` {d \<in> set db. in_range (Day s) (Day e) d})"
  proof (intro impI)
    assume h: "548 * msPerDay \<le> e - s
           \<and> (\<forall>r \<in> set rs. length (filter (in_range (fst r) (snd r)) db) \<le> 1000 * HARD_MAX)"
    have bound: "length (filter (in_range (year_gte (Day s) y) (year_lte (Day e) y)) db)
        \<le> 1000 * HARD_MAX"
      if "YearFromTime s \<le> y" and "y \<le> YearFromTime e" for y
    proof -
      have "(year_gte (Day s) y, year_lte (Day e) y) \<in> set rs"
        using that by (simp add: rs_def spec_sub_ranges_def YearFromTime_def)
      with h show ?thesis by fastforce
    qed
    obtain out where out: "fetchFRSpan (registry db) opts w = (Inr out, w)"
        "distinct (map docKey out)"
        "docKey ` set out = docKey ` {d \<in> set db. in_range (Day s) (Day e) d}"
      using fetchFRSpan_registry [OF nr _ bound, of w] h by blast
    have "docKey ` set out = docKey ` set (spec_unsplit_fetch db opts)"
      unfolding out(3) unsplit_fetch_keys s_def e_def ..
    with out show "\<exists>out. fetchFRSpan (registry db) opts w = (Inr out, w)
               \<and> distinct (map docKey out)
               \<and> docKey ` set out = docKey ` set (spec_unsplit_fetch db opts)
               \<and> docKey ` set out = docKey ` {d \<in> set db. in_range (Day s) (Day e) d}"
      by blast
  qed
  have f: "length (filter (in_range (Day s) (Day e)) db) \<le> 1000 * HARD_MAX \<longrightarrow>
            fetchFR (registry db) opts w = (Inr (spec_unsplit_fetch db opts), w)"
    using fetchFR_unsplit [of opts db w] by (simp add: s_def e_def)
  show ?thesis
    unfolding Let_def s_def [symmetric] e_def [symmetric] rs_def [symmetric]
    using a b p d f by (intro conjI)
qed

lemma ex_span_range:
  "normRange (opt_start ex_span_opts) (opt_end ex_span_opts) = (1514764800000, 1562112000000)"
  by (simp add: ex_span_opts_def normRange_def midnight_def MakeDate_def msPerDay_def)

lemma ex_span_days: "Day 1514764800000 = 17532" "Day 1562112000000 = 18080"
  by (simp_all add: Day_def msPerDay_def)

lemma ex_span_bound:
  "length (filter (in_range (Day 1514764800000) (Day 1562112000000)) [ex_2018, ex_2019])
     \<le> 1000 * HARD_MAX"
  by (simp add: HARD_MAX_def)

lemma ex_span_sub_ranges: "spec_sub_ranges 17532 18080 = [(17532, 17896), (17897, 18080)]"
proof -
  have y: "YearFromDay 17532 = 2018" "YearFromDay 18080 = 2019"
    by code_simp+
  have l: "[2018..2019] = [2018, 2019 :: int]"
    by code_simp
  show ?thesis
    by (simp add: spec_sub_ranges_def y l year_gte_def year_lte_def ex_year_days)
qed

theorem span_split_equivalence_witness:
  "spec_sub_ranges 17532 18080 = [(17532, 17896), (17897, 18080)]
   \<and> fetchFRSpan scripted ex_span_opts [json_page [ex_2018] 1, json_page [ex_2019] 1]
       = (Inr [with_pub ex_2018, with_pub ex_2019], [])
   \<and> (\<exists>out. fetchFRSpan (registry [ex_2018, ex_2019]) ex_span_opts () = (Inr out, ())
         \<and> docKey ` set out = docKey ` set (spec_unsplit_fetch [ex_2018, ex_2019] ex_span_opts))
   \<and> fetchFR (registry [ex_2018, ex_2019]) ex_span_opts ()
       = (Inr (spec_unsplit_fetch [ex_2018, ex_2019] ex_span_opts), ())
   \<and> fetchFRSpan scripted ex_opts [json_page [ex_rule] 1]
       = fetchFR scripted ex_opts [json_page [ex_rule] 1]"
proof -
  have big: "548 * msPerDay \<le> 1562112000000 - 1514764800000"
    by (simp add: msPerDay_def)
  have small: "snd (normRange (opt_start ex_opts) (opt_end ex_opts))
      - fst (normRange (opt_start ex_opts) (opt_end ex_opts)) < 548 * msPerDay"
    by (simp add: ex_opts_def normRange_def midnight_def MakeDate_def msPerDay_def)
  have each: "spec_split_fetch scripted ex_span_opts [(17532, 17896), (17897, 18080)] [] {}
        [json_page [ex_2018] 1, json_page [ex_2019] 1]
      = (Inr [with_pub ex_2018, with_pub ex_2019], [])"
    by code_simp
  note t2 = span_split_equivalence [of ex_span_opts scripted
      "[json_page [ex_2018] 1, json_page [ex_2019] 1]" "[]",
      unfolded Let_def ex_span_range fst_conv snd_conv ex_span_days ex_span_sub_ranges,
      THEN conjunct2, THEN conjunct1]
  from mp [OF t2 big]
  have first: "fetchFRSpan scripted ex_span_opts [json_page [ex_2018] 1, json_page [ex_2019] 1]
       = (Inr [with_pub ex_2018, with_pub ex_2019], [])"
    by (simp only: each)
  have per: "\<forall>r \<in> set [(17532, 17896), (17897, 18080)].
      length (filter (in_range (fst r) (snd r)) [ex_2018, ex_2019]) \<le> 1000 * HARD_MAX"
    by (simp add: HARD_MAX_def)
  note t8 = span_split_equivalence [of ex_span_opts "registry [ex_2018, ex_2019]" "()"
      "[ex_2018, ex_2019]",
      unfolded Let_def ex_span_range fst_conv snd_conv ex_span_days ex_span_sub_ranges,
      THEN conjunct2, THEN conjunct2, THEN conjunct2, THEN conjunct2, THEN conjunct2,
      THEN conjunct2, THEN conjunct2]
  from mp [OF t8 [THEN conjunct1] conjI [OF big per]]
  obtain out where "fetchFRSpan (registry [ex_2018, ex_2019]) ex_span_opts () = (Inr out, ())"
    and "docKey ` set out = docKey ` set (spec_unsplit_fetch [ex_2018, ex_2019] ex_span_opts)"
    by (elim exE conjE)
  then have second: "\<exists>out. fetchFRSpan (registry [ex_2018, ex_2019]) ex_span_opts ()
        = (Inr out, ())
      \<and> docKey ` set out = docKey ` set (spec_unsplit_fetch [ex_2018, ex_2019] ex_span_opts)"
    by (intro exI conjI)
  have whole: "length (filter (in_range 17532 18080) [ex_2018, ex_2019]) \<le> 1000 * HARD_MAX"
    by (simp add: HARD_MAX_def)
  from mp [OF t8 [THEN conjunct2] whole]
  have third: "fetchFR (registry [ex_2018, ex_2019]) ex_span_opts ()
       = (Inr (spec_unsplit_fetch [ex_2018, ex_2019] ex_span_opts), ())" .
  note t1 = span_split_equivalence [of ex_opts scripted "[json_page [ex_rule] 1]" "[]",
      unfolded Let_def, THEN conjunct1]
  from mp [OF t1 small]
  have fourth: "fetchFRSpan scripted ex_opts [json_page [ex_rule] 1]
      = fetchFR scripted ex_opts [json_page [ex_rule] 1]" .
  from ex_span_sub_ranges first second third fourth show ?thesis
    by (intro conjI)
qed

text \<open>
  The claim as first stated fails twice. A range of exactly 548 days is split, and the
  span fetch lists the years in ascending order where the single fetch lists the newest
  record first. And on a range of 549 days whose second year holds 100001 records, the
  sub-fetch of that year stops after 100 pages, so that the span fetch does not return
  the identities that a single unsplit fetch of the same records returns.
\<close>

theorem span_threshold_counterexample:
  "snd (normRange (opt_start ex_span_opts) (opt_end ex_span_opts))
     - fst (normRange (opt_start ex_span_opts) (opt_end ex_span_opts)) = 548 * msPerDay
   \<and> fst (fetchFR (registry [ex_2018, ex_2019]) ex_span_opts ())
       = Inr [with_pub ex_2019, with_pub ex_2018]
   \<and> fst (fetchFRSpan (registry [ex_2018, ex_2019]) ex_span_opts ())
       = Inr [with_pub ex_2018, with_pub ex_2019]
   \<and> [with_pub ex_2018, with_pub ex_2019] \<noteq> [with_pub ex_2019, with_pub ex_2018]
   \<and> 548 * msPerDay < snd (normRange (opt_start ex_long_opts) (opt_end ex_long_opts))
         - fst (normRange (opt_start ex_long_opts) (opt_end ex_long_opts))
   \<and> \<not> isl (fst (fetchFRSpan (registry big_db) ex_long_opts ()))
   \<and> docKey ` set (projr (fst (fetchFRSpan (registry big_db) ex_long_opts ())))
       \<noteq> docKey ` set (spec_unsplit_fetch big_db ex_long_opts)"
proof -
  have at: "snd (normRange (opt_start ex_span_opts) (opt_end ex_span_opts))
     - fst (normRange (opt_start ex_span_opts) (opt_end ex_span_opts)) = 548 * msPerDay"
    by (simp add: ex_span_range msPerDay_def)
  have single: "fst (fetchFR (registry [ex_2018, ex_2019]) ex_span_opts ())
       = Inr [with_pub ex_2019, with_pub ex_2018]"
    by code_simp
  have big: "\<not> (1562112000000 - 1514764800000 < (1000 * 60 * 60 * 24 * 548 :: int))"
    by simp
  have ys: "YearFromTime 1514764800000 = 2018" "YearFromTime 1562112000000 = 2019"
    by code_simp+
  have years: "[2018..2019] = [2018, 2019 :: int]"
    by code_simp
  have split: "fetchFRSpan (registry [ex_2018, ex_2019]) ex_span_opts ()
      = span_loop (registry [ex_2018, ex_2019]) ex_span_opts 1514764800000 1562112000000
          [year_bound 2018, year_bound 2019] [] {} ()"
    using fetchFRSpan_split [OF ex_span_range big, of "registry [ex_2018, ex_2019]" "()"]
    by (simp add: ys years)
  have s1: "span_loop (registry [ex_2018, ex_2019]) ex_span_opts 1514764800000 1562112000000
          [year_bound 2018, year_bound 2019] [] {} ()
      = span_loop (registry [ex_2018, ex_2019]) ex_span_opts 1514764800000 1562112000000
          [year_bound 2019] [with_pub ex_2018] {docKey ex_2018} ()"
  proof -
    have acc: "push_new docKey (\<lambda>d. d)
        (dedup (registry_matches [ex_2018, ex_2019]
           ((baseParams ex_span_opts)\<lparr>q_gte := year_gte (Day 1514764800000) 2018,
                                        q_lte := year_lte (Day 1562112000000) 2018\<rparr>))) [] {}
        = ([with_pub ex_2018], {docKey ex_2018})"
      by code_simp
    show ?thesis
      using span_loop_step [OF ex_span_range year_bound_of_range [OF ex_span_bound],
          of 2018 "[year_bound 2019]" "[]" "{}" "()"]
      by (simp add: ys acc)
  qed
  have s2: "span_loop (registry [ex_2018, ex_2019]) ex_span_opts 1514764800000 1562112000000
          [year_bound 2019] [with_pub ex_2018] {docKey ex_2018} ()
      = (Inr [with_pub ex_2018, with_pub ex_2019], ())"
  proof -
    have acc: "push_new docKey (\<lambda>d. d)
        (dedup (registry_matches [ex_2018, ex_2019]
           ((baseParams ex_span_opts)\<lparr>q_gte := year_gte (Day 1514764800000) 2019,
                                        q_lte := year_lte (Day 1562112000000) 2019\<rparr>)))
        [with_pub ex_2018] {docKey ex_2018}
        = ([with_pub ex_2018, with_pub ex_2019], {docKey ex_2018, docKey ex_2019})"
      by code_simp
    show ?thesis
      using span_loop_step [OF ex_span_range year_bound_of_range [OF ex_span_bound],
          of 2019 "[]" "[with_pub ex_2018]" "{docKey ex_2018}" "()"]
      by (simp add: ys acc)
  qed
  have ne: "[with_pub ex_2018, with_pub ex_2019] \<noteq> [with_pub ex_2019, with_pub ex_2018]"
    by (simp add: with_pub_def ex_2018_def ex_2019_def)
  from at single split s1 s2 ne
  have threshold: "snd (normRange (opt_start ex_span_opts) (opt_end ex_span_opts))
       - fst (normRange (opt_start ex_span_opts) (opt_end ex_span_opts)) = 548 * msPerDay
     \<and> fst (fetchFR (registry [ex_2018, ex_2019]) ex_span_opts ())
         = Inr [with_pub ex_2019, with_pub ex_2018]
     \<and> fst (fetchFRSpan (registry [ex_2018, ex_2019]) ex_span_opts ())
         = Inr [with_pub ex_2018, with_pub ex_2019]
     \<and> [with_pub ex_2018, with_pub ex_2019] \<noteq> [with_pub ex_2019, with_pub ex_2018]"
    by simp
  have over: "548 * msPerDay < snd (normRange (opt_start ex_long_opts) (opt_end ex_long_opts))
         - fst (normRange (opt_start ex_long_opts) (opt_end ex_long_opts))"
    by (simp add: ex_long_range msPerDay_def)
  obtain out where out: "fetchFRSpan (registry big_db) ex_long_opts () = (Inr out, ())"
    and few: "card (docKey ` set out) \<le> 1000 * HARD_MAX + 1"
    and many: "card (docKey ` set (spec_unsplit_fetch big_db ex_long_opts)) = 1000 * HARD_MAX + 2"
    using span_ceiling_divergence by (elim exE conjE)
  from few many have "docKey ` set out \<noteq> docKey ` set (spec_unsplit_fetch big_db ex_long_opts)"
    by auto
  with out have ceiling: "\<not> isl (fst (fetchFRSpan (registry big_db) ex_long_opts ()))
     \<and> docKey ` set (projr (fst (fetchFRSpan (registry big_db) ex_long_opts ())))
         \<noteq> docKey ` set (spec_unsplit_fetch big_db ex_long_opts)"
    by simp
  from threshold over ceiling show ?thesis
    by (elim conjE, intro conjI)
qed

end
